theory Spec2Isabelle
  imports Main "HOL-Library.AList"
begin

section \<open>JavaScript values, errors and events\<close>

text \<open>
  The coordinator (core/AgentCoordinator.js) and the base agent (agents/BaseAgent.js) pass
  plain JavaScript objects around. A value is modelled by \<open>jsval\<close>; an object keeps its
  properties in insertion order, as \<open>Object.keys\<close> lists them.
\<close>

datatype jsval =
    JUndefined
  | JNull
  | JBool bool
  | JNum int
  | JStr string
  | JArr "jsval list"
  | JObj "(string \<times> jsval) list"

text \<open>The truthiness test behind \<open>!x\<close>, \<open>x && y\<close> and \<open>x || y\<close>.\<close>

fun truthy :: "jsval \<Rightarrow> bool" where
  "truthy JUndefined = False"
| "truthy JNull = False"
| "truthy (JBool b) = b"
| "truthy (JNum n) = (n \<noteq> 0)"
| "truthy (JStr s) = (s \<noteq> [])"
| "truthy (JArr xs) = True"
| "truthy (JObj fs) = True"

definition nullish :: "jsval \<Rightarrow> bool" where
  "nullish v = (v = JUndefined \<or> v = JNull)"

text \<open>
  \<open>js_get v k\<close> is the property read \<open>v.k\<close> on a value that is neither \<open>undefined\<close> nor
  \<open>null\<close> (a caller that may hold one of those tests \<open>nullish\<close> first and raises the
  TypeError itself). A missing property reads as \<open>undefined\<close>.
\<close>

fun js_get :: "jsval \<Rightarrow> string \<Rightarrow> jsval" where
  "js_get (JObj fs) k = (case map_of fs k of Some v \<Rightarrow> v | None \<Rightarrow> JUndefined)"
| "js_get v k = JUndefined"

text \<open>
  The errors the modelled code raises, one constructor for each \<open>throw\<close> site or runtime
  TypeError:
  \<^item> \<open>InvalidTaskRequest\<close>: \<open>new Error('Invalid task request')\<close>;
  \<^item> \<open>UnsupportedTaskType t\<close>: \<open>new Error(`Unsupported task type: ${task.type}`)\<close>;
  \<^item> \<open>NotAFunction m\<close>: the TypeError of calling \<open>m\<close>, a property that is \<open>undefined\<close>;
  \<^item> \<open>NotIterable x\<close>: the TypeError of \<open>for (... of x)\<close> on a value that is not iterable;
  \<^item> \<open>DebugAgentNotAvailable\<close>: \<open>new Error('Debug agent not available')\<close>;
  \<^item> \<open>AgentBusy n\<close>: \<open>new Error(`${this.name} agent is currently busy`)\<close>;
  \<^item> \<open>CannotReadProperties k\<close>: the TypeError of reading property \<open>k\<close> of
    \<open>undefined\<close> or \<open>null\<close>;
  \<^item> \<open>AgentFailure m\<close>: any error with message \<open>m\<close> raised inside an agent by code that
    is not modelled (the AI provider call, the file system).
\<close>

datatype error =
    InvalidTaskRequest
  | UnsupportedTaskType jsval
  | NotAFunction string
  | NotIterable string
  | DebugAgentNotAvailable
  | AgentBusy string
  | CannotReadProperties string
  | AgentFailure string

text \<open>A settled promise: \<open>Inl\<close> the rejection reason, \<open>Inr\<close> the fulfilment value.\<close>

type_synonym outcome = "error + jsval"

text \<open>
  The task and agent events the coordinator emits, with their payloads: \<open>taskProgress\<close>,
  \<open>taskCompleted\<close>, \<open>taskFailed\<close>, \<open>agentTaskCompleted\<close>, \<open>agentError\<close>. (The event
  \<open>initialized\<close>, emitted once by \<open>initialize\<close> and without payload, is not recorded.)
  Identifiers made by \<open>uuidv4()\<close> are modelled as natural numbers drawn from a counter, so
  that no identifier is drawn twice.
\<close>

datatype event =
    TaskProgress nat nat
  | TaskCompleted nat jsval
  | TaskFailed nat error
  | AgentTaskCompleted string jsval jsval
  | AgentError string jsval error

section \<open>Tasks and the suspended calls of executeTask\<close>

text \<open>The argument of \<open>AgentCoordinator.executeTask\<close>.\<close>

record request =
  req_type :: jsval
  req_description :: jsval
  req_requirements :: jsval

text \<open>
  The task object built by \<open>executeTask\<close>. \<open>status\<close> is the JavaScript string the code
  stores. \<open>completedAt\<close>, \<open>result\<close> and \<open>error\<close> are absent until the code assigns them.
  The property \<open>agents\<close> is left out: \<open>determineRequiredAgents\<close> fills it with
  \<open>agentMap[taskRequest.type] || []\<close>, a lookup that cannot throw, and nothing reads it.
\<close>

record task =
  task_id :: nat
  task_type :: jsval
  description :: jsval
  requirements :: jsval
  status :: string
  createdAt :: int
  progress :: nat
  results :: "(string \<times> jsval) list"
  task_errors :: "error list"
  completedAt :: "int option"
  result :: "jsval option"
  task_error :: "error option"

text \<open>
  The object that \<open>DebugDetectiveAgent.analyzeCode\<close> builds and returns:
  \<open>{ summary: { totalFiles, totalIssues, criticalIssues, securityIssues, performanceIssues },
  files, recommendations }\<close>. \<open>totalFiles\<close> is \<open>files.length\<close> of the argument; the four
  other fields of the summary are numbers, counted up from 0.
\<close>

record analysis =
  totalFiles :: jsval
  totalIssues :: int
  criticalIssues :: int
  securityIssues :: int
  performanceIssues :: int
  analysis_files :: "jsval list"
  analysis_recommendations :: "jsval list"

text \<open>
  \<open>executeTask\<close> and the workflow it awaits are \<open>async\<close> functions: each runs until its next
  \<open>await\<close> and is resumed when the awaited promise settles. \<open>pc\<close> names the \<open>await\<close> at which
  the call for one task is suspended:
  \<^item> \<open>AwaitArchitect\<close> .. \<open>AwaitTester\<close>: the five agent calls of
    \<open>executeCreateProjectWorkflow\<close>;
  \<^item> \<open>AwaitAnalyze\<close>, \<open>AwaitFixes analysis\<close>: the two agent calls of \<open>executeDebugWorkflow\<close>
    (the second holds the local variable \<open>analysis\<close>);
  \<^item> \<open>AwaitWorkflow r\<close>: the workflow has returned or thrown (\<open>r\<close>) and the continuation of
    \<open>executeTask\<close> after \<open>await this.executeTaskWorkflow(task)\<close> has not run yet;
  \<^item> \<open>InEmitCompleted\<close>: \<open>executeTask\<close> is inside \<open>this.emit('taskCompleted', ...)\<close>, where
    the listeners of the event run; this is no \<open>await\<close>, but code of the environment
    runs here and decides whether the \<open>emit\<close> returns or throws;
  \<^item> \<open>Finished\<close>: \<open>executeTask\<close> has returned or thrown.
\<close>

datatype pc =
    AwaitArchitect
  | AwaitDatabase
  | AwaitBackend
  | AwaitFrontend
  | AwaitTester
  | AwaitAnalyze
  | AwaitFixes analysis
  | AwaitWorkflow outcome
  | InEmitCompleted
  | Finished

text \<open>
  One entry of \<open>runningTasks\<close>: the task object, and beside it the frame of the
  \<open>executeTask\<close> call that made it: the local variable \<open>context\<close> of
  \<open>executeCreateProjectWorkflow\<close> (empty in every other workflow) and the \<open>await\<close> the call
  is suspended at.
\<close>

record proc =
  task :: task
  wf_context :: "(string \<times> jsval) list"
  pc :: pc

section \<open>Agents and the registry\<close>

text \<open>The argument of \<open>BaseAgent.executeTask\<close>: an object with an \<open>id\<close> and a \<open>type\<close>.\<close>

record agent_task =
  atask_id :: jsval
  atask_type :: jsval

text \<open>The fields of a \<open>BaseAgent\<close> that the modelled methods read or write.\<close>

record base_agent =
  name :: string
  initialized :: bool
  busy :: bool
  currentTask :: "agent_task option"

text \<open>
  \<open>this.name = this.constructor.name.replace('Agent', '').toLowerCase()\<close>:
  \<open>String.prototype.replace\<close> with a string pattern removes the first occurrence only.
\<close>

fun replace_Agent :: "string \<Rightarrow> string" where
  "replace_Agent [] = []"
| "replace_Agent (c # cs) =
     (if take 5 (c # cs) = ''Agent'' then drop 5 (c # cs) else c # replace_Agent cs)"

definition lower_char :: "char \<Rightarrow> char" where
  "lower_char c =
     (if 65 \<le> (of_char c :: int) \<and> (of_char c :: int) \<le> 90
      then char_of ((of_char c :: int) + 32) else c)"

definition toLowerCase :: "string \<Rightarrow> string" where
  "toLowerCase s = map lower_char s"

definition new_BaseAgent :: "string \<Rightarrow> base_agent" where
  "new_BaseAgent class_name =
     \<lparr> name = toLowerCase (replace_Agent class_name),
       initialized = False, busy = False, currentTask = None \<rparr>"

text \<open>
  A value of the coordinator's \<open>agents\<close> map, as \<open>initializeAgents\<close> builds it. The logged
  errors are \<open>{timestamp, error, taskId}\<close>.
\<close>

record agent_entry =
  agent_instance :: base_agent
  entry_description :: string
  entry_status :: string
  entry_currentTask :: "jsval"
  completedTasks :: nat
  errors :: "(int \<times> error \<times> jsval) list"

type_synonym registry = "(string \<times> agent_entry) list"

text \<open>\<open>this.agents.has(k)\<close>.\<close>

definition has :: "registry \<Rightarrow> string \<Rightarrow> bool" where
  "has ags k = (map_of ags k \<noteq> None)"

section \<open>The coordinator\<close>

text \<open>
  The fields of \<open>AgentCoordinator\<close>, and four components of its environment: the events
  emitted so far (oldest first), the pending sixty-second clean-up timers (due time and
  task id), the clock read by \<open>new Date()\<close> (in milliseconds), and the counter behind
  \<open>uuidv4()\<close>.
\<close>

record coordinator =
  agents :: registry
  runningTasks :: "(nat \<times> proc) list"
  taskQueue :: "request list"
  coord_initialized :: bool
  maxConcurrentTasks :: int
  taskTimeout :: int
  events :: "event list"
  timers :: "(int \<times> nat) list"
  clock :: int
  next_uuid :: nat

text \<open>
  The constructor. Its two arguments are \<open>parseInt(process.env.MAX_CONCURRENT_AGENTS)\<close> and
  \<open>parseInt(process.env.AGENT_TIMEOUT)\<close>, \<open>None\<close> for NaN; \<open>|| d\<close> replaces NaN and 0 by
  the default.
\<close>

definition or_default :: "int option \<Rightarrow> int \<Rightarrow> int" where
  "or_default v d = (case v of None \<Rightarrow> d | Some n \<Rightarrow> if n = 0 then d else n)"

definition constructor :: "int option \<Rightarrow> int option \<Rightarrow> coordinator" where
  "constructor max_env timeout_env =
     \<lparr> agents = [], runningTasks = [], taskQueue = [], coord_initialized = False,
       maxConcurrentTasks = or_default max_env 5,
       taskTimeout = or_default timeout_env 300000,
       events = [], timers = [], clock = 0, next_uuid = 0 \<rparr>"

text \<open>
  \<open>initializeAgents\<close>: the table \<open>agentClasses\<close> (registry key, class, description), and the
  loop over it. \<open>ok k\<close> tells whether constructing and initializing the agent registered
  under \<open>k\<close> succeeds; an agent that throws is logged and left out of the map.
\<close>

definition agentClasses :: "(string \<times> string \<times> string) list" where
  "agentClasses =
     [(''architect'', ''ProjectArchitectAgent'', ''Designs application structure and architecture''),
      (''frontend'', ''FrontendDeveloperAgent'', ''Creates UI/UX components and interfaces''),
      (''backend'', ''BackendDeveloperAgent'', ''Builds APIs, databases, and server logic''),
      (''database'', ''DatabaseDesignerAgent'', ''Optimizes data models and queries''),
      (''devops'', ''DevOpsAgent'', ''Handles deployment and infrastructure''),
      (''tester'', ''QATestingAgent'', ''Writes tests and ensures code quality''),
      (''debugger'', ''DebugDetectiveAgent'', ''Finds and fixes bugs in existing code''),
      (''reviewer'', ''CodeReviewerAgent'', ''Provides code quality feedback'')]"

definition register_agent :: "(string \<Rightarrow> bool) \<Rightarrow> string \<times> string \<times> string \<Rightarrow> registry \<Rightarrow> registry" where
  "register_agent ok cfg ags =
     (case cfg of (k, class_name, d) \<Rightarrow>
        if ok k
        then AList.update k
               \<lparr> agent_instance = (new_BaseAgent class_name)\<lparr>initialized := True\<rparr>,
                 entry_description = d, entry_status = ''ready'',
                 entry_currentTask = JNull, completedTasks = 0, errors = [] \<rparr> ags
        else ags)"

definition initializeAgents :: "(string \<Rightarrow> bool) \<Rightarrow> coordinator \<Rightarrow> coordinator" where
  "initializeAgents ok c = c\<lparr>agents := fold (register_agent ok) agentClasses (agents c)\<rparr>"

text \<open>\<open>initialize\<close>: nothing when already initialized; else the agents, then the flag.\<close>

definition initialize :: "(string \<Rightarrow> bool) \<Rightarrow> coordinator \<Rightarrow> coordinator" where
  "initialize ok c =
     (if coord_initialized c then c
      else (initializeAgents ok c)\<lparr>coord_initialized := True\<rparr>)"

section \<open>Admission\<close>

text \<open>
  \<open>validateTaskRequest\<close>: false when \<open>taskRequest.type\<close> is falsy, false when
  \<open>taskRequest.description\<close> is falsy, true otherwise.
\<close>

definition validateTaskRequest :: "request \<Rightarrow> bool" where
  "validateTaskRequest r =
     (if \<not> truthy (req_type r) then False
      else if \<not> truthy (req_description r) then False
      else True)"

text \<open>\<open>taskRequest.requirements || {}\<close>.\<close>

definition requirements_or_empty :: "jsval \<Rightarrow> jsval" where
  "requirements_or_empty v = (if truthy v then v else JObj [])"

definition new_task :: "nat \<Rightarrow> int \<Rightarrow> request \<Rightarrow> task" where
  "new_task taskId now r =
     \<lparr> task_id = taskId, task_type = req_type r, description = req_description r,
       requirements = requirements_or_empty (req_requirements r),
       status = ''pending'', createdAt = now, progress = 0, results = [],
       task_errors = [], completedAt = None, result = None, task_error = None \<rparr>"

section \<open>The agent calls of the workflows\<close>

text \<open>
  The workflows call methods of the agent instances directly. Each call returns a promise.
  \<open>DatabaseDesignerAgent.designSchema\<close>, \<open>BackendDeveloperAgent.createProject\<close> and
  \<open>QATestingAgent.setupTesting\<close> return a constant object.
\<close>

definition designSchema :: outcome where
  "designSchema =
     Inr (JObj [(''schema'', JObj []), (''migrations'', JArr []), (''files'', JArr [])])"

definition backend_createProject :: outcome where
  "backend_createProject =
     Inr (JObj [(''framework'', JStr ''express''), (''files'', JArr []), (''config'', JObj [])])"

definition setupTesting :: outcome where
  "setupTesting =
     Inr (JObj [(''framework'', JStr ''jest''), (''tests'', JArr []), (''config'', JObj [])])"

text \<open>
  \<open>FrontendDeveloperAgent.createProject(context)\<close> starts with
  \<open>const { architecture, requirements } = context; const framework = architecture.frontend || 'react'\<close>,
  a TypeError when \<open>context.architecture\<close> is \<open>undefined\<close> or \<open>null\<close>. What follows asks the
  AI provider; its outcome \<open>env\<close> is given by the environment.
  \<open>ProjectArchitectAgent.designArchitecture\<close> and \<open>DebugDetectiveAgent.generateFixes\<close> ask
  the provider too.
\<close>

definition frontend_createProject :: "(string \<times> jsval) list \<Rightarrow> outcome \<Rightarrow> outcome" where
  "frontend_createProject ctx env =
     (if nullish (js_get (JObj ctx) ''architecture'')
      then Inl (CannotReadProperties ''frontend'') else env)"

definition designArchitecture :: "outcome \<Rightarrow> outcome" where
  "designArchitecture env = env"

definition generateFixes :: "outcome \<Rightarrow> outcome" where
  "generateFixes env = env"

text \<open>
  \<open>DebugDetectiveAgent.analyzeCode(files, issueTypes)\<close>. It reads \<open>files.length\<close>, loops
  \<open>for (const file of files)\<close>, pushes what \<open>analyzeFile\<close> returns for each file and adds to
  the counters of the summary, and ends with \<open>generateRecommendations\<close>. \<open>analyzeFile\<close>
  reads the file system and asks the AI provider, and returns an object with an array
  \<open>issues\<close> from both of its \<open>return\<close> statements. The environment gives \<open>Inr (JArr fas)\<close>,
  the objects \<open>analyzeFile\<close> returned in order, or \<open>Inl e\<close> when something else in the loop
  throws.
\<close>

definition elements :: "jsval \<Rightarrow> jsval list" where
  "elements v = (case v of JArr xs \<Rightarrow> xs | _ \<Rightarrow> [])"

definition js_length :: "jsval \<Rightarrow> jsval" where
  "js_length v =
     (case v of
        JArr xs \<Rightarrow> JNum (int (length xs))
      | JStr s \<Rightarrow> JNum (int (length s))
      | _ \<Rightarrow> js_get v ''length'')"

definition iterable :: "jsval \<Rightarrow> bool" where
  "iterable v = (case v of JArr xs \<Rightarrow> True | JStr s \<Rightarrow> True | _ \<Rightarrow> False)"

definition issues_of :: "jsval \<Rightarrow> jsval list" where
  "issues_of fileAnalysis = elements (js_get fileAnalysis ''issues'')"

text \<open>\<open>issues.filter(i => i.k === v).length\<close>.\<close>

definition count_where :: "string \<Rightarrow> string \<Rightarrow> jsval list \<Rightarrow> int" where
  "count_where k v issues = int (length (filter (\<lambda>i. js_get i k = JStr v) issues))"

definition security_recommendation :: jsval where
  "security_recommendation =
     JObj [(''category'', JStr ''security''), (''priority'', JStr ''high''),
           (''message'', JStr ''Address security vulnerabilities immediately''),
           (''actions'', JArr
              [JStr ''Review and fix all security-related issues'',
               JStr ''Implement input validation'',
               JStr ''Use parameterized queries for database operations'',
               JStr ''Enable security linters in your CI/CD pipeline''])]"

definition maintainability_recommendation :: jsval where
  "maintainability_recommendation =
     JObj [(''category'', JStr ''maintainability''), (''priority'', JStr ''medium''),
           (''message'', JStr ''Reduce code complexity for better maintainability''),
           (''actions'', JArr
              [JStr ''Refactor complex functions into smaller ones'',
               JStr ''Extract common logic into utility functions'',
               JStr ''Consider using design patterns to reduce complexity'',
               JStr ''Add comprehensive tests before refactoring''])]"

definition quality_recommendation :: jsval where
  "quality_recommendation =
     JObj [(''category'', JStr ''quality''), (''priority'', JStr ''medium''),
           (''message'', JStr ''Improve overall code quality''),
           (''actions'', JArr
              [JStr ''Set up automated code quality tools'',
               JStr ''Establish coding standards and guidelines'',
               JStr ''Implement code review processes'',
               JStr ''Regular refactoring sessions''])]"

text \<open>
  \<open>generateRecommendations(analysis)\<close>: up to three recommendations. The second is for
  files with an issue of type \<open>complexity\<close> and severity \<open>high\<close>.
\<close>

definition high_complexity :: "jsval \<Rightarrow> bool" where
  "high_complexity fileAnalysis =
     (\<exists>i \<in> set (issues_of fileAnalysis).
        js_get i ''type'' = JStr ''complexity'' \<and> js_get i ''severity'' = JStr ''high'')"

definition generateRecommendations :: "analysis \<Rightarrow> jsval list" where
  "generateRecommendations a =
     (if securityIssues a > 0 then [security_recommendation] else []) @
     (if length (filter high_complexity (analysis_files a)) > 0
      then [maintainability_recommendation] else []) @
     (if totalIssues a > 20 then [quality_recommendation] else [])"

definition summarize :: "jsval \<Rightarrow> jsval list \<Rightarrow> analysis" where
  "summarize files fas =
     \<lparr> totalFiles = js_length files,
       totalIssues = int (length (concat (map issues_of fas))),
       criticalIssues = count_where ''severity'' ''high'' (concat (map issues_of fas)),
       securityIssues = count_where ''type'' ''security'' (concat (map issues_of fas)),
       performanceIssues = count_where ''type'' ''performance'' (concat (map issues_of fas)),
       analysis_files = fas,
       analysis_recommendations = [] \<rparr>"

definition analyzeCode :: "jsval \<Rightarrow> outcome \<Rightarrow> error + analysis" where
  "analyzeCode files env =
     (if nullish files then Inl (CannotReadProperties ''length'')
      else if \<not> iterable files then Inl (NotIterable ''files'')
      else (case env of
              Inl e \<Rightarrow> Inl e
            | Inr v \<Rightarrow>
                if \<exists>i \<in> set (concat (map issues_of (elements v))). nullish i
                then Inl (CannotReadProperties ''severity'')
                else Inr ((summarize files (elements v))
                            \<lparr>analysis_recommendations :=
                               generateRecommendations (summarize files (elements v))\<rparr>)))"

text \<open>The analysis as the JavaScript object it is, for the result of the workflow.\<close>

definition analysis_object :: "analysis \<Rightarrow> jsval" where
  "analysis_object a =
     JObj [(''summary'',
              JObj [(''totalFiles'', totalFiles a), (''totalIssues'', JNum (totalIssues a)),
                    (''criticalIssues'', JNum (criticalIssues a)),
                    (''securityIssues'', JNum (securityIssues a)),
                    (''performanceIssues'', JNum (performanceIssues a))]),
           (''files'', JArr (analysis_files a)),
           (''recommendations'', JArr (analysis_recommendations a))]"

text \<open>
  \<open>DebugDetectiveAgent.getRecommendations(analysis)\<close> is synchronous. It reads
  \<open>analysis.summary.securityIssues > 0\<close> and \<open>analysis.summary.criticalIssues > 5\<close>, two of
  the numbers above.
\<close>

definition getImmediateActions :: "analysis \<Rightarrow> jsval" where
  "getImmediateActions a =
     JArr ((if securityIssues a > 0 then [JStr ''Fix all security vulnerabilities''] else []) @
           (if criticalIssues a > 5 then [JStr ''Address critical bugs and errors''] else []))"

definition getShortTermActions :: jsval where
  "getShortTermActions =
     JArr [JStr ''Set up automated testing'', JStr ''Implement code linting'',
           JStr ''Add error monitoring'', JStr ''Create debugging documentation'']"

definition getLongTermActions :: jsval where
  "getLongTermActions =
     JArr [JStr ''Establish code review processes'', JStr ''Implement continuous integration'',
           JStr ''Regular security audits'', JStr ''Performance monitoring setup'']"

definition recommendTools :: jsval where
  "recommendTools =
     JArr [JStr ''ESLint/Pylint for static analysis'', JStr ''SonarQube for code quality'',
           JStr ''Sentry for error tracking'', JStr ''Jest/PyTest for testing'']"

definition getRecommendations :: "analysis \<Rightarrow> jsval" where
  "getRecommendations a =
     JObj [(''immediate'', getImmediateActions a), (''shortTerm'', getShortTermActions),
           (''longTerm'', getLongTermActions), (''tools'', recommendTools)]"

section \<open>The create-project workflow\<close>

text \<open>
  The helpers that shape the result. \<open>collectGeneratedFiles\<close> walks \<open>Object.keys(context)\<close>
  and keeps \<open>context[key].files\<close> where \<open>context[key] && context[key].files\<close> is truthy.
\<close>

definition collectGeneratedFiles :: "(string \<times> jsval) list \<Rightarrow> jsval" where
  "collectGeneratedFiles ctx =
     JObj (map (\<lambda>(k, v). (k, js_get v ''files''))
            (filter (\<lambda>(k, v). truthy v \<and> truthy (js_get v ''files'')) ctx))"

definition generateSetupInstructions :: jsval where
  "generateSetupInstructions =
     JArr [JStr ''1. Install dependencies: npm install'',
           JStr ''2. Set up environment variables: cp .env.example .env'',
           JStr ''3. Initialize database (if applicable)'',
           JStr ''4. Start development server: npm run dev'']"

definition generateNextSteps :: jsval where
  "generateNextSteps =
     JArr [JStr ''Review the generated code structure'',
           JStr ''Customize the configuration files'',
           JStr ''Add your specific business logic'',
           JStr ''Run tests to ensure everything works'',
           JStr ''Deploy to your preferred platform'']"

definition create_result :: "(string \<times> jsval) list \<Rightarrow> jsval" where
  "create_result ctx =
     JObj [(''projectId'', js_get (JObj ctx) ''projectId''),
           (''structure'', js_get (JObj ctx) ''architecture''),
           (''files'', collectGeneratedFiles ctx),
           (''instructions'', generateSetupInstructions),
           (''nextSteps'', generateNextSteps)]"

text \<open>
  A piece of a workflow between two \<open>await\<close>s maps the entry to the entry at the next
  \<open>await\<close> and lists the events it emits. \<open>stage_done k n v\<close> is what follows a fulfilled
  stage call: \<open>context.k = v; task.progress = n; this.emit('taskProgress', ...)\<close>.
  \<open>thrown e\<close> is the workflow rejecting with \<open>e\<close>.
\<close>

definition stage_done :: "string \<Rightarrow> nat \<Rightarrow> jsval \<Rightarrow> proc \<Rightarrow> proc" where
  "stage_done k n v p =
     p\<lparr>wf_context := AList.update k v (wf_context p), task := (task p)\<lparr>progress := n\<rparr>\<rparr>"

definition thrown :: "error \<Rightarrow> proc \<Rightarrow> proc \<times> event list" where
  "thrown e p = (p\<lparr>pc := AwaitWorkflow (Inl e)\<rparr>, [])"

definition emitting :: "event \<Rightarrow> proc \<times> event list \<Rightarrow> proc \<times> event list" where
  "emitting ev r = (fst r, ev # snd r)"

text \<open>
  The end of the workflow: progress 100, its event, the result object. Then the five
  guarded steps, last first; each either suspends at its agent call or falls through.
\<close>

definition create_finish :: "proc \<Rightarrow> proc \<times> event list" where
  "create_finish p =
     (p\<lparr>task := (task p)\<lparr>progress := 100\<rparr>,
        pc := AwaitWorkflow (Inr (create_result (wf_context p)))\<rparr>,
      [TaskProgress (task_id (task p)) 100])"

definition create_step5 :: "registry \<Rightarrow> proc \<Rightarrow> proc \<times> event list" where
  "create_step5 ags p =
     (if has ags ''tester'' then (p\<lparr>pc := AwaitTester\<rparr>, []) else create_finish p)"

definition create_step4 :: "registry \<Rightarrow> proc \<Rightarrow> proc \<times> event list" where
  "create_step4 ags p =
     (if truthy (js_get (requirements (task p)) ''frontend'') \<and> has ags ''frontend''
      then (p\<lparr>pc := AwaitFrontend\<rparr>, []) else create_step5 ags p)"

definition create_step3 :: "registry \<Rightarrow> proc \<Rightarrow> proc \<times> event list" where
  "create_step3 ags p =
     (if truthy (js_get (requirements (task p)) ''backend'') \<and> has ags ''backend''
      then (p\<lparr>pc := AwaitBackend\<rparr>, []) else create_step4 ags p)"

definition create_step2 :: "registry \<Rightarrow> proc \<Rightarrow> proc \<times> event list" where
  "create_step2 ags p =
     (if truthy (js_get (requirements (task p)) ''database'') \<and> has ags ''database''
      then (p\<lparr>pc := AwaitDatabase\<rparr>, []) else create_step3 ags p)"

definition create_step1 :: "registry \<Rightarrow> proc \<Rightarrow> proc \<times> event list" where
  "create_step1 ags p =
     (if has ags ''architect'' then (p\<lparr>pc := AwaitArchitect\<rparr>, []) else create_step2 ags p)"

text \<open>
  \<open>executeCreateProjectWorkflow\<close> up to its first \<open>await\<close>; \<open>projectId\<close> is the fresh
  identifier \<open>uuidv4()\<close> returned.
\<close>

definition executeCreateProjectWorkflow :: "registry \<Rightarrow> nat \<Rightarrow> proc \<Rightarrow> proc \<times> event list" where
  "executeCreateProjectWorkflow ags projectId p =
     create_step1 ags
       (p\<lparr>wf_context := [(''projectId'', JNum (int projectId)),
                          (''requirements'', requirements (task p))]\<rparr>)"

section \<open>The debug workflow and the dispatcher\<close>

definition executeDebugWorkflow :: "registry \<Rightarrow> proc \<Rightarrow> proc \<times> event list" where
  "executeDebugWorkflow ags p =
     (if \<not> has ags ''debugger'' then thrown DebugAgentNotAvailable p
      else (p\<lparr>pc := AwaitAnalyze\<rparr>, []))"

text \<open>
  The methods the class \<open>AgentCoordinator\<close> defines. Calling \<open>this.m(task)\<close> for a name
  outside this list calls \<open>undefined\<close>: a TypeError.
\<close>

definition coordinator_methods :: "string list" where
  "coordinator_methods =
     [''constructor'', ''initialize'', ''initializeAgents'', ''executeTask'',
      ''executeTaskWorkflow'', ''executeCreateProjectWorkflow'', ''executeDebugWorkflow'',
      ''determineRequiredAgents'', ''validateTaskRequest'', ''getStatus'',
      ''setupEventHandlers'', ''startTaskProcessor'', ''processTaskQueue'',
      ''collectGeneratedFiles'', ''generateSetupInstructions'', ''generateNextSteps'']"

definition call_method :: "string \<Rightarrow> (proc \<Rightarrow> proc \<times> event list) \<Rightarrow> proc \<Rightarrow> proc \<times> event list" where
  "call_method m body p =
     (if m \<in> set coordinator_methods then body p else thrown (NotAFunction m) p)"

text \<open>
  \<open>executeTaskWorkflow\<close>: the \<open>switch\<close> on \<open>task.type\<close>. The bodies of the three workflows
  that the class does not define are never reached; the identity stands in for them.
\<close>

definition executeTaskWorkflow :: "registry \<Rightarrow> nat \<Rightarrow> proc \<Rightarrow> proc \<times> event list" where
  "executeTaskWorkflow ags projectId p =
     (if task_type (task p) = JStr ''create_project''
        then call_method ''executeCreateProjectWorkflow''
               (executeCreateProjectWorkflow ags projectId) p
      else if task_type (task p) = JStr ''debug_code''
        then call_method ''executeDebugWorkflow'' (executeDebugWorkflow ags) p
      else if task_type (task p) = JStr ''review_code''
        then call_method ''executeCodeReviewWorkflow'' (\<lambda>p. (p, [])) p
      else if task_type (task p) = JStr ''optimize_performance''
        then call_method ''executeOptimizationWorkflow'' (\<lambda>p. (p, [])) p
      else if task_type (task p) = JStr ''deploy_application''
        then call_method ''executeDeploymentWorkflow'' (\<lambda>p. (p, [])) p
      else thrown (UnsupportedTaskType (task_type (task p))) p)"

section \<open>Resuming a suspended workflow\<close>

text \<open>
  \<open>after_stage k n r next\<close>: the awaited stage call settled with \<open>r\<close>. A rejection leaves the
  workflow (no \<open>try\<close> surrounds the call); a value is stored, the progress is set and
  emitted, and the workflow goes on with \<open>next\<close>.
\<close>

definition after_stage ::
  "string \<Rightarrow> nat \<Rightarrow> outcome \<Rightarrow> (proc \<Rightarrow> proc \<times> event list) \<Rightarrow> proc \<Rightarrow> proc \<times> event list" where
  "after_stage k n r next p =
     (case r of
        Inl e \<Rightarrow> thrown e p
      | Inr v \<Rightarrow> emitting (TaskProgress (task_id (task p)) n) (next (stage_done k n v p)))"

text \<open>
  The second half of \<open>executeDebugWorkflow\<close>: progress 50 after the analysis; progress 100
  after the fixes, and then \<open>getRecommendations\<close> inside the returned object literal.
\<close>

definition after_analyze :: "error + analysis \<Rightarrow> proc \<Rightarrow> proc \<times> event list" where
  "after_analyze r p =
     (case r of
        Inl e \<Rightarrow> thrown e p
      | Inr analysis \<Rightarrow>
          (p\<lparr>task := (task p)\<lparr>progress := 50\<rparr>, pc := AwaitFixes analysis\<rparr>,
           [TaskProgress (task_id (task p)) 50]))"

definition debug_return :: "analysis \<Rightarrow> jsval \<Rightarrow> proc \<Rightarrow> proc \<times> event list" where
  "debug_return analysis fixes p =
     (p\<lparr>pc := AwaitWorkflow
                (Inr (JObj [(''analysis'', analysis_object analysis), (''fixes'', fixes),
                            (''recommendations'', getRecommendations analysis)]))\<rparr>, [])"

definition after_fixes :: "analysis \<Rightarrow> outcome \<Rightarrow> proc \<Rightarrow> proc \<times> event list" where
  "after_fixes analysis r p =
     (case r of
        Inl e \<Rightarrow> thrown e p
      | Inr fixes \<Rightarrow>
          emitting (TaskProgress (task_id (task p)) 100)
            (debug_return analysis fixes (p\<lparr>task := (task p)\<lparr>progress := 100\<rparr>\<rparr>)))"

text \<open>
  The workflow of one entry, resumed at its \<open>await\<close>. \<open>env\<close> is what the environment
  decides about the awaited call (the AI provider's part of it).
\<close>

definition resume_workflow :: "registry \<Rightarrow> outcome \<Rightarrow> proc \<Rightarrow> proc \<times> event list" where
  "resume_workflow ags env p =
     (case pc p of
        AwaitArchitect \<Rightarrow>
          after_stage ''architecture'' 20 (designArchitecture env) (create_step2 ags) p
      | AwaitDatabase \<Rightarrow> after_stage ''database'' 35 designSchema (create_step3 ags) p
      | AwaitBackend \<Rightarrow> after_stage ''backend'' 60 backend_createProject (create_step4 ags) p
      | AwaitFrontend \<Rightarrow>
          after_stage ''frontend'' 85 (frontend_createProject (wf_context p) env)
            (create_step5 ags) p
      | AwaitTester \<Rightarrow> after_stage ''testing'' 95 setupTesting create_finish p
      | AwaitAnalyze \<Rightarrow>
          after_analyze (analyzeCode (js_get (requirements (task p)) ''files'') env) p
      | AwaitFixes analysis \<Rightarrow> after_fixes analysis (generateFixes env) p
      | AwaitWorkflow r \<Rightarrow> (p, [])
      | InEmitCompleted \<Rightarrow> (p, [])
      | Finished \<Rightarrow> (p, []))"

section \<open>executeTask\<close>

text \<open>
  The rest of \<open>executeTask\<close> once the workflow has settled. When the workflow threw, the
  \<open>catch\<close> block marks the task failed and emits \<open>taskFailed\<close>. When it returned, the
  statements after the \<open>await\<close> store the status \<open>completed\<close> and the result and call
  \<open>this.emit('taskCompleted', { taskId, result })\<close>, still inside the \<open>try\<close>.
  \<open>EventEmitter.emit\<close> calls the listeners one after the other and a listener that throws
  makes \<open>emit\<close> throw. \<open>listeners\<close> is what they do: \<open>Inr\<close> when all return, \<open>Inl e\<close> when one
  throws \<open>e\<close>; then the \<open>catch\<close> block runs for this task too, which is \<open>completed\<close> by
  then. (The listeners of \<open>taskProgress\<close> and \<open>taskFailed\<close> in the user interfaces write to
  the terminal or to a socket and are taken not to throw.)
\<close>

definition mark_failed :: "int \<Rightarrow> error \<Rightarrow> proc \<Rightarrow> proc" where
  "mark_failed now e p =
     p\<lparr>task := (task p)\<lparr>status := ''failed'', task_error := Some e, completedAt := Some now\<rparr>\<rparr>"

definition executeTask_continue :: "int \<Rightarrow> outcome \<Rightarrow> proc \<Rightarrow> proc \<times> event list" where
  "executeTask_continue now listeners p =
     (case pc p of
        AwaitWorkflow (Inr res) \<Rightarrow>
          (p\<lparr>task := (task p)\<lparr>status := ''completed'', completedAt := Some now,
                               result := Some res\<rparr>,
              pc := InEmitCompleted\<rparr>,
           [TaskCompleted (task_id (task p)) res])
      | AwaitWorkflow (Inl e) \<Rightarrow>
          ((mark_failed now e p)\<lparr>pc := Finished\<rparr>, [TaskFailed (task_id (task p)) e])
      | InEmitCompleted \<Rightarrow>
          (case listeners of
             Inr v \<Rightarrow> (p\<lparr>pc := Finished\<rparr>, [])
           | Inl e \<Rightarrow>
               ((mark_failed now e p)\<lparr>pc := Finished\<rparr>, [TaskFailed (task_id (task p)) e]))
      | _ \<Rightarrow> (p, []))"

text \<open>
  \<open>CLIInterface.displayResult(result)\<close>, which the listener of \<open>taskCompleted\<close> in
  \<open>executeTaskWithProgress\<close> calls, on a result of one of the two workflows: the branches
  for \<open>projectId\<close>, \<open>files\<close>, \<open>instructions\<close> and \<open>nextSteps\<close> print; the branch for
  \<open>analysis\<close> prints three lines and then calls \<open>chalk.orange\<close>, a property that chalk does
  not have.
\<close>

definition displayResult :: "jsval \<Rightarrow> outcome" where
  "displayResult res =
     (if \<not> truthy res then Inr JUndefined
      else if truthy (js_get res ''analysis'') then Inl (NotAFunction ''chalk.orange'')
      else Inr JUndefined)"

text \<open>
  The call for the task \<open>tid\<close> runs on: the promise it awaits settles with \<open>env\<close>, or, inside
  \<open>emit('taskCompleted')\<close>, the listeners do \<open>env\<close>. When \<open>executeTask\<close> ends, its
  \<open>finally\<close> block sets the clean-up timer.
\<close>

definition run_on :: "nat \<Rightarrow> outcome \<Rightarrow> proc \<Rightarrow> coordinator \<Rightarrow> coordinator" where
  "run_on tid env p c =
     c\<lparr>runningTasks :=
          AList.update tid (fst (executeTask_continue (clock c) env p)) (runningTasks c),
        events := events c @ snd (executeTask_continue (clock c) env p),
        timers := timers c @
          (if pc (fst (executeTask_continue (clock c) env p)) = Finished
           then [(clock c + 60000, tid)] else [])\<rparr>"

definition resume :: "nat \<Rightarrow> outcome \<Rightarrow> coordinator \<Rightarrow> coordinator" where
  "resume tid env c =
     (case map_of (runningTasks c) tid of
        None \<Rightarrow> c
      | Some p \<Rightarrow>
          (case pc p of
             Finished \<Rightarrow> c
           | AwaitWorkflow r \<Rightarrow> run_on tid env p c
           | InEmitCompleted \<Rightarrow> run_on tid env p c
           | _ \<Rightarrow>
               c\<lparr>runningTasks :=
                    AList.update tid (fst (resume_workflow (agents c) env p)) (runningTasks c),
                  events := events c @ snd (resume_workflow (agents c) env p)\<rparr>))"

text \<open>
  A call of \<open>executeTask(taskRequest)\<close>, up to its first \<open>await\<close>. \<open>uuidv4()\<close> is called once for
  the task id and, in the create-project workflow, once more for the project id.
  An invalid request throws inside the \<open>try\<close>: the \<open>catch\<close> block finds no task under the new
  id (it marks one failed if there is one), emits \<open>taskFailed\<close> and rethrows, and the
  \<open>finally\<close> block sets the timer.
\<close>

definition uuids_used :: "request \<Rightarrow> nat" where
  "uuids_used r = (if req_type r = JStr ''create_project'' then 2 else 1)"

definition reject_request :: "coordinator \<Rightarrow> coordinator" where
  "reject_request c =
     c\<lparr>runningTasks :=
         (case map_of (runningTasks c) (next_uuid c) of
            None \<Rightarrow> runningTasks c
          | Some p \<Rightarrow>
              AList.update (next_uuid c) (mark_failed (clock c) InvalidTaskRequest p)
                (runningTasks c)),
       events := events c @ [TaskFailed (next_uuid c) InvalidTaskRequest],
       timers := timers c @ [(clock c + 60000, next_uuid c)],
       next_uuid := Suc (next_uuid c)\<rparr>"

definition start_proc :: "coordinator \<Rightarrow> request \<Rightarrow> proc \<times> event list" where
  "start_proc c r =
     executeTaskWorkflow (agents c) (Suc (next_uuid c))
       \<lparr> task = new_task (next_uuid c) (clock c) r, wf_context = [], pc = Finished \<rparr>"

definition executeTask :: "request \<Rightarrow> coordinator \<Rightarrow> coordinator" where
  "executeTask r c =
     (if \<not> validateTaskRequest r then reject_request c
      else c\<lparr>runningTasks := AList.update (next_uuid c) (fst (start_proc c r)) (runningTasks c),
             events := events c @ snd (start_proc c r),
             next_uuid := next_uuid c + uuids_used r\<rparr>)"

text \<open>
  \<open>processTaskQueue\<close>, called every second by the interval that \<open>initialize\<close> starts
  (\<open>startTaskProcessor\<close>).
\<close>

definition processTaskQueue :: "coordinator \<Rightarrow> coordinator" where
  "processTaskQueue c =
     (if length (taskQueue c) = 0 \<or> int (length (runningTasks c)) \<ge> maxConcurrentTasks c
      then c
      else (case taskQueue c of
              [] \<Rightarrow> c
            | r # q \<Rightarrow> executeTask r (c\<lparr>taskQueue := q\<rparr>)))"

text \<open>The clean-up timer of task \<open>tid\<close> fires, once it is due: \<open>runningTasks.delete(taskId)\<close>.\<close>

definition cleanup :: "nat \<Rightarrow> coordinator \<Rightarrow> coordinator" where
  "cleanup tid c =
     (case find (\<lambda>tm. snd tm = tid \<and> fst tm \<le> clock c) (timers c) of
        None \<Rightarrow> c
      | Some tm \<Rightarrow>
          c\<lparr>runningTasks := AList.delete tid (runningTasks c),
            timers := remove1 tm (timers c)\<rparr>)"

text \<open>\<open>getStatus\<close>: the two counters of the status object.\<close>

definition status_runningTasks :: "coordinator \<Rightarrow> nat" where
  "status_runningTasks c = length (runningTasks c)"

definition status_queuedTasks :: "coordinator \<Rightarrow> nat" where
  "status_queuedTasks c = length (taskQueue c)"

section \<open>BaseAgent.executeTask and the coordinator's handlers\<close>

text \<open>
  The handlers installed by \<open>setupEventHandlers\<close>. Both look the agent up under the name the
  event carries.
\<close>

definition on_agentError :: "int \<Rightarrow> string \<Rightarrow> error \<Rightarrow> jsval \<Rightarrow> registry \<Rightarrow> registry" where
  "on_agentError now agentName err taskId ags =
     (if has ags agentName
      then AList.map_entry agentName (\<lambda>e. e\<lparr>errors := errors e @ [(now, err, taskId)]\<rparr>) ags
      else ags)"

definition on_agentTaskCompleted :: "string \<Rightarrow> registry \<Rightarrow> registry" where
  "on_agentTaskCompleted agentName ags =
     (if has ags agentName
      then AList.map_entry agentName
             (\<lambda>e. e\<lparr>completedTasks := Suc (completedTasks e), entry_currentTask := JNull,
                     entry_status := ''ready''\<rparr>) ags
      else ags)"

text \<open>
  \<open>BaseAgent.executeTask(task)\<close> up to \<open>await this.processTask(task)\<close>: the busy test stands
  before the \<open>try\<close>, so a busy agent throws and changes nothing.
\<close>

definition BaseAgent_executeTask :: "base_agent \<Rightarrow> agent_task \<Rightarrow> error + base_agent" where
  "BaseAgent_executeTask a t =
     (if busy a then Inl (AgentBusy (name a))
      else Inr (a\<lparr>busy := True, currentTask := Some t\<rparr>))"

text \<open>
  The rest of it, once \<open>processTask\<close> has settled with \<open>r\<close>, for the agent registered under
  \<open>key\<close>: the event with \<open>agentName: this.name\<close> and the coordinator's handler for it, then the
  \<open>finally\<close> block. The second component is what the caller of \<open>executeTask\<close> gets: the
  result returned, or the caught error thrown again.
\<close>

definition release :: "agent_entry \<Rightarrow> agent_entry" where
  "release e = e\<lparr>agent_instance := (agent_instance e)\<lparr>busy := False, currentTask := None\<rparr>\<rparr>"

definition BaseAgent_executeTask_settle ::
  "string \<Rightarrow> base_agent \<Rightarrow> agent_task \<Rightarrow> outcome \<Rightarrow> coordinator \<Rightarrow> coordinator \<times> outcome" where
  "BaseAgent_executeTask_settle key a t r c =
     (case r of
        Inr res \<Rightarrow>
          (c\<lparr>agents := AList.map_entry key release (on_agentTaskCompleted (name a) (agents c)),
             events := events c @ [AgentTaskCompleted (name a) (atask_id t) res]\<rparr>,
           Inr res)
      | Inl err \<Rightarrow>
          (c\<lparr>agents := AList.map_entry key release
                         (on_agentError (clock c) (name a) err (atask_id t) (agents c)),
             events := events c @ [AgentError (name a) (atask_id t) err]\<rparr>,
           Inl err))"

text \<open>The two halves applied to the instance stored under \<open>key\<close> in the registry.\<close>

definition agent_execute :: "string \<Rightarrow> agent_task \<Rightarrow> coordinator \<Rightarrow> coordinator" where
  "agent_execute key t c =
     (case map_of (agents c) key of
        None \<Rightarrow> c
      | Some e \<Rightarrow>
          (case BaseAgent_executeTask (agent_instance e) t of
             Inl err \<Rightarrow> c
           | Inr a \<Rightarrow> c\<lparr>agents := AList.map_entry key (\<lambda>e. e\<lparr>agent_instance := a\<rparr>) (agents c)\<rparr>))"

definition agent_settle :: "string \<Rightarrow> outcome \<Rightarrow> coordinator \<Rightarrow> coordinator" where
  "agent_settle key r c =
     (case map_of (agents c) key of
        None \<Rightarrow> c
      | Some e \<Rightarrow>
          (case currentTask (agent_instance e) of
             None \<Rightarrow> c
           | Some t \<Rightarrow>
               if busy (agent_instance e)
               then fst (BaseAgent_executeTask_settle key (agent_instance e) t r c)
               else c))"

section \<open>Runs of the coordinator\<close>

text \<open>
  JavaScript runs one piece of code at a time, each to its next \<open>await\<close>. An action is one
  such piece, started by the environment:
  \<^item> \<open>Submit r\<close>: a caller calls \<open>executeTask(r)\<close>;
  \<^item> \<open>Resume tid env\<close>: the call for task \<open>tid\<close> runs on: the promise it awaits settles,
    or the listeners of \<open>taskCompleted\<close> end;
  \<^item> \<open>Tick\<close>: the one-second interval fires (only after \<open>initialize\<close>);
  \<^item> \<open>Cleanup tid\<close>: the clean-up timer of \<open>tid\<close> fires;
  \<^item> \<open>Elapse d\<close>: \<open>d\<close> milliseconds pass (\<open>d\<close> is not negative);
  \<^item> \<open>AgentExecute key t\<close>: a caller calls \<open>executeTask(t)\<close> on the agent registered under
    \<open>key\<close>;
  \<^item> \<open>AgentSettle key r\<close>: that agent's \<open>processTask\<close> settles with \<open>r\<close>.
  An action that cannot happen in the state leaves it as it is. \<open>emit\<close> is synchronous, so in
  the code no other action comes between \<open>executeTask\<close> entering \<open>emit('taskCompleted')\<close>
  and its listeners ending; the runs of the model include such orders as well, and what is
  proved of every run holds of the runs the code has.

  \<open>this.emit\<close> is modelled by appending to \<open>events\<close> and running the coordinator's own
  handlers; of the listeners outside the coordinator, those of \<open>taskCompleted\<close> are part
  of the environment (\<open>executeTask_continue\<close>), the others and the logger are taken not to
  throw. \<open>initialize\<close> is taken as one step that is over before the first action.
\<close>

datatype action =
    Submit request
  | Resume nat outcome
  | Tick
  | Cleanup nat
  | Elapse int
  | AgentExecute string agent_task
  | AgentSettle string outcome

fun step :: "coordinator \<Rightarrow> action \<Rightarrow> coordinator" where
  "step c (Submit r) = executeTask r c"
| "step c (Resume tid env) = resume tid env c"
| "step c Tick = (if coord_initialized c then processTaskQueue c else c)"
| "step c (Cleanup tid) = cleanup tid c"
| "step c (Elapse d) = (if 0 \<le> d then c\<lparr>clock := clock c + d\<rparr> else c)"
| "step c (AgentExecute key t) = agent_execute key t c"
| "step c (AgentSettle key r) = agent_settle key r c"

definition run :: "coordinator \<Rightarrow> action list \<Rightarrow> coordinator" where
  "run c acts = foldl step c acts"

text \<open>
  The coordinator after \<open>new AgentCoordinator()\<close> and \<open>initialize()\<close>, where \<open>ok\<close> tells which
  agents initialize, and the two numbers are the parsed environment variables.
\<close>

definition started :: "(string \<Rightarrow> bool) \<Rightarrow> int option \<Rightarrow> int option \<Rightarrow> coordinator" where
  "started ok max_env timeout_env = initialize ok (constructor max_env timeout_env)"

text \<open>Reading a task of the running set.\<close>

definition task_of :: "coordinator \<Rightarrow> nat \<Rightarrow> task option" where
  "task_of c tid = map_option task (map_of (runningTasks c) tid)"

definition pc_of :: "coordinator \<Rightarrow> nat \<Rightarrow> pc option" where
  "pc_of c tid = map_option pc (map_of (runningTasks c) tid)"

definition status_of :: "coordinator \<Rightarrow> nat \<Rightarrow> string option" where
  "status_of c tid = map_option (\<lambda>p. status (task p)) (map_of (runningTasks c) tid)"

definition progress_of :: "coordinator \<Rightarrow> nat \<Rightarrow> nat option" where
  "progress_of c tid = map_option (\<lambda>p. progress (task p)) (map_of (runningTasks c) tid)"

definition result_of :: "coordinator \<Rightarrow> nat \<Rightarrow> jsval option option" where
  "result_of c tid = map_option (\<lambda>p. result (task p)) (map_of (runningTasks c) tid)"

definition task_error_of :: "coordinator \<Rightarrow> nat \<Rightarrow> error option option" where
  "task_error_of c tid = map_option (\<lambda>p. task_error (task p)) (map_of (runningTasks c) tid)"

definition context_keys_of :: "coordinator \<Rightarrow> nat \<Rightarrow> string list option" where
  "context_keys_of c tid = map_option (\<lambda>p. map fst (wf_context p)) (map_of (runningTasks c) tid)"

text \<open>Reading the registry: an agent's instance, its counter and its error log.\<close>

definition busy_of :: "coordinator \<Rightarrow> string \<Rightarrow> bool option" where
  "busy_of c key = map_option (\<lambda>e. busy (agent_instance e)) (map_of (agents c) key)"

definition completedTasks_of :: "coordinator \<Rightarrow> string \<Rightarrow> nat option" where
  "completedTasks_of c key = map_option completedTasks (map_of (agents c) key)"

definition errors_of :: "coordinator \<Rightarrow> string \<Rightarrow> (int \<times> error \<times> jsval) list option" where
  "errors_of c key = map_option errors (map_of (agents c) key)"

section \<open>Sample inputs and runs\<close>

text \<open>
  Which agents initialize (\<open>all_agents\<close>, \<open>only_frontend\<close>), requests, and runs from an
  initialized coordinator. In these runs the first submission draws the task id 0 and
  the project id 1, the second the task id 2.
\<close>

definition all_agents :: "string \<Rightarrow> bool" where
  "all_agents k = True"

definition only_frontend :: "string \<Rightarrow> bool" where
  "only_frontend k = (k = ''frontend'')"

definition create_request :: "jsval \<Rightarrow> request" where
  "create_request reqs =
     \<lparr> req_type = JStr ''create_project'', req_description = JStr ''x'',
       req_requirements = reqs \<rparr>"

definition typed_request :: "string \<Rightarrow> request" where
  "typed_request ty =
     \<lparr> req_type = JStr ty, req_description = JStr ''x'', req_requirements = JObj [] \<rparr>"

definition sample_agent_task :: agent_task where
  "sample_agent_task = \<lparr> atask_id = JStr ''t1'', atask_type = JStr ''design_architecture'' \<rparr>"

text \<open>Two submissions, one after the other, to a coordinator configured for one task.\<close>

definition two_submissions :: coordinator where
  "two_submissions =
     run (started all_agents (Some 1) None)
       [Submit (create_request (JObj [])), Submit (create_request (JObj []))]"

text \<open>
  One submission whose architect call never settles, while more than the configured
  timeout (the default, 300000 ms) passes and the interval fires.
\<close>

definition stalled_task :: coordinator where
  "stalled_task =
     run (started all_agents None None)
       [Submit (create_request (JObj [])), Elapse 300001, Tick]"

text \<open>
  Only the frontend agent initialized; a project that asks for a frontend. The frontend
  call settles and \<open>executeTask\<close> runs on.
\<close>

definition frontend_without_architect :: coordinator where
  "frontend_without_architect =
     run (started only_frontend None None)
       [Submit (create_request (JObj [(''frontend'', JBool True)])),
        Resume 0 (Inr (JObj [(''framework'', JStr ''react'')])),
        Resume 0 (Inr JNull)]"

text \<open>
  The architect agent runs a task through \<open>BaseAgent.executeTask\<close>; its \<open>processTask\<close>
  succeeds in the first run and fails in the second.
\<close>

definition architect_succeeds :: coordinator where
  "architect_succeeds =
     run (started all_agents None None)
       [AgentExecute ''architect'' sample_agent_task,
        AgentSettle ''architect'' (Inr (JStr ''done''))]"

definition architect_fails :: coordinator where
  "architect_fails =
     run (started all_agents None None)
       [AgentExecute ''architect'' sample_agent_task,
        AgentSettle ''architect'' (Inl (AgentFailure ''boom''))]"

text \<open>The same two runs of \<open>BaseAgent.executeTask\<close> for the agent registered as \<open>devops\<close>.\<close>

definition devops_succeeds :: coordinator where
  "devops_succeeds =
     run (started all_agents None None)
       [AgentExecute ''devops'' sample_agent_task,
        AgentSettle ''devops'' (Inr (JStr ''done''))]"

definition devops_fails :: coordinator where
  "devops_fails =
     run (started all_agents None None)
       [AgentExecute ''devops'' sample_agent_task,
        AgentSettle ''devops'' (Inl (AgentFailure ''boom''))]"

text \<open>
  A project with no optional part, all agents initialized: the architect and the tester
  are called. \<open>plain_project_run\<close> stops when the workflow has returned (the state
  \<open>workflow_returned\<close>), \<open>completed_run\<close> lets \<open>executeTask\<close> run on (the state
  \<open>task_completed\<close>).
\<close>

definition plain_project_run :: "action list" where
  "plain_project_run =
     [Submit (create_request (JObj [])),
      Resume 0 (Inr (JObj [(''frontend'', JStr ''react'')])),
      Resume 0 (Inr JNull)]"

definition completed_run :: "action list" where
  "completed_run = plain_project_run @ [Resume 0 (Inr JNull)]"

definition workflow_returned :: coordinator where
  "workflow_returned = run (started all_agents None None) plain_project_run"

definition task_completed :: coordinator where
  "task_completed = step workflow_returned (Resume 0 (Inr JNull))"

text \<open>The status of one task before a list of actions and after each of them.\<close>

fun status_history :: "coordinator \<Rightarrow> action list \<Rightarrow> nat \<Rightarrow> string option list" where
  "status_history c [] tid = [status_of c tid]"
| "status_history c (a # acts) tid = status_of c tid # status_history (step c a) acts tid"

text \<open>The five task types of \<open>agentMap\<close> and of the \<open>switch\<close> in \<open>executeTaskWorkflow\<close>.\<close>

definition known_task_types :: "jsval list" where
  "known_task_types =
     [JStr ''create_project'', JStr ''debug_code'', JStr ''review_code'',
      JStr ''optimize_performance'', JStr ''deploy_application'']"

text \<open>A request of an unknown type, and a request with an empty description.\<close>

definition unknown_type_submitted :: coordinator where
  "unknown_type_submitted = run (started all_agents None None) [Submit (typed_request ''bogus'')]"

definition empty_description :: request where
  "empty_description =
     \<lparr> req_type = JStr ''create_project'', req_description = JStr [],
       req_requirements = JObj [] \<rparr>"

definition empty_description_submitted :: coordinator where
  "empty_description_submitted = run (started all_agents None None) [Submit empty_description]"

text \<open>
  The architect is busy with a task given to it through \<open>BaseAgent.executeTask\<close>, and two
  projects are submitted.
\<close>

definition busy_architect :: coordinator where
  "busy_architect =
     run (started all_agents None None)
       [AgentExecute ''architect'' sample_agent_task,
        Submit (create_request (JObj [])), Submit (create_request (JObj []))]"

text \<open>
  A debug task with the listener of the command line interface attached: the analysis
  and the fixes settle, \<open>executeTask\<close> runs on into \<open>emit('taskCompleted')\<close> (the state
  \<open>debug_in_emit\<close>), and the listener does what \<open>displayResult\<close> does with the result of the
  task.
\<close>

definition debug_request :: request where
  "debug_request =
     \<lparr> req_type = JStr ''debug_code'', req_description = JStr ''x'',
       req_requirements = JObj [(''files'', JArr [JStr ''app.js''])] \<rparr>"

definition debug_run :: "action list" where
  "debug_run =
     [Submit debug_request,
      Resume 0 (Inr (JArr [JObj [(''file'', JStr ''app.js''), (''issues'', JArr [])]])),
      Resume 0 (Inr (JObj [])),
      Resume 0 (Inr JNull)]"

definition debug_in_emit :: coordinator where
  "debug_in_emit = run (started all_agents None None) debug_run"

definition cli_completedListener :: "coordinator \<Rightarrow> nat \<Rightarrow> outcome" where
  "cli_completedListener c tid =
     (case result_of c tid of
        Some (Some res) \<Rightarrow> displayResult res
      | _ \<Rightarrow> Inr JUndefined)"

text \<open>A code review is submitted and \<open>executeTask\<close> runs on.\<close>

definition review_submitted :: coordinator where
  "review_submitted = run (started all_agents None None) [Submit (typed_request ''review_code'')]"

section \<open>What holds of every entry of the running set\<close>

text \<open>
  The three task types whose workflow method the dispatcher calls and the class does not
  define.
\<close>

definition undefined_workflow :: "jsval \<Rightarrow> string option" where
  "undefined_workflow ty =
     (if ty = JStr ''review_code'' then Some ''executeCodeReviewWorkflow''
      else if ty = JStr ''optimize_performance'' then Some ''executeOptimizationWorkflow''
      else if ty = JStr ''deploy_application'' then Some ''executeDeploymentWorkflow''
      else None)"

text \<open>
  \<open>entry_inv\<close> relates the place where a call is suspended to the status and the progress of
  its task.
\<close>

definition pending_below :: "nat \<Rightarrow> string \<Rightarrow> proc \<Rightarrow> bool" where
  "pending_below n ty p =
     (status (task p) = ''pending'' \<and> progress (task p) \<le> n \<and> task_type (task p) = JStr ty)"

definition entry_inv :: "proc \<Rightarrow> bool" where
  "entry_inv p =
     (case pc p of
        AwaitArchitect \<Rightarrow> pending_below 0 ''create_project'' p
      | AwaitDatabase \<Rightarrow> pending_below 20 ''create_project'' p
      | AwaitBackend \<Rightarrow> pending_below 35 ''create_project'' p
      | AwaitFrontend \<Rightarrow> pending_below 60 ''create_project'' p
      | AwaitTester \<Rightarrow> pending_below 85 ''create_project'' p
      | AwaitAnalyze \<Rightarrow> pending_below 0 ''debug_code'' p
      | AwaitFixes analysis \<Rightarrow> pending_below 50 ''debug_code'' p
      | AwaitWorkflow (Inr v) \<Rightarrow>
          status (task p) = ''pending'' \<and> progress (task p) = 100 \<and>
          undefined_workflow (task_type (task p)) = None
      | AwaitWorkflow (Inl e) \<Rightarrow>
          status (task p) = ''pending'' \<and> progress (task p) < 100 \<and>
          (case undefined_workflow (task_type (task p)) of
             None \<Rightarrow> True
           | Some w \<Rightarrow> e = NotAFunction w)
      | InEmitCompleted \<Rightarrow>
          status (task p) = ''completed'' \<and> progress (task p) = 100 \<and>
          undefined_workflow (task_type (task p)) = None \<and> result (task p) \<noteq> None
      | Finished \<Rightarrow>
          (status (task p) = ''completed'' \<and> progress (task p) = 100 \<and>
           undefined_workflow (task_type (task p)) = None) \<or>
          (status (task p) = ''failed'' \<and> progress (task p) \<le> 100 \<and>
           task_error (task p) \<noteq> None \<and>
           (result (task p) \<noteq> None \<or> progress (task p) < 100)))"

text \<open>
  \<open>follows p q\<close>: the entry \<open>q\<close> may come after the entry \<open>p\<close> of the same task: the same id,
  type and requirements, no less progress, and a status that stays, or leaves
  \<open>pending\<close> for \<open>completed\<close> or \<open>failed\<close>, or leaves \<open>completed\<close> for \<open>failed\<close>.
\<close>

definition follows :: "proc \<Rightarrow> proc \<Rightarrow> bool" where
  "follows p q =
     (task_id (task q) = task_id (task p) \<and> task_type (task q) = task_type (task p) \<and>
      requirements (task q) = requirements (task p) \<and>
      progress (task p) \<le> progress (task q) \<and>
      (status (task q) = status (task p) \<or>
       status (task p) = ''pending'' \<and>
       (status (task q) = ''completed'' \<or> status (task q) = ''failed'') \<or>
       status (task p) = ''completed'' \<and> status (task q) = ''failed''))"

text \<open>
  The invariant of the coordinator: every entry is stored under the id of its task, an id
  already drawn from the counter, and satisfies \<open>entry_inv\<close>.
\<close>

definition coord_inv :: "coordinator \<Rightarrow> bool" where
  "coord_inv c =
     (\<forall>tid p. map_of (runningTasks c) tid = Some p \<longrightarrow>
        tid < next_uuid c \<and> task_id (task p) = tid \<and> entry_inv p)"

text \<open>The values of the \<open>taskProgress\<close> events of one task, in the order of emission.\<close>

fun progress_values :: "nat \<Rightarrow> event list \<Rightarrow> nat list" where
  "progress_values tid [] = []"
| "progress_values tid (TaskProgress t n # evs) =
     (if t = tid then n # progress_values tid evs else progress_values tid evs)"
| "progress_values tid (ev # evs) = progress_values tid evs"

text \<open>
  \<open>emits_ok p q evs\<close>: the progress events in \<open>evs\<close>, emitted while the entry \<open>p\<close> became \<open>q\<close>,
  belong to that task, ascend, and lie between the progress of \<open>p\<close> and that of \<open>q\<close>.
\<close>

definition emits_ok :: "proc \<Rightarrow> proc \<Rightarrow> event list \<Rightarrow> bool" where
  "emits_ok p q evs =
     (\<forall>tid. sorted (progress_values tid evs) \<and>
        (\<forall>n \<in> set (progress_values tid evs).
           tid = task_id (task p) \<and> progress (task p) \<le> n \<and> n \<le> progress (task q)))"

definition piece_ok :: "proc \<Rightarrow> proc \<times> event list \<Rightarrow> bool" where
  "piece_ok p r = (entry_inv (fst r) \<and> follows p (fst r) \<and> emits_ok p (fst r) (snd r))"

text \<open>
  The invariant of the event log: the progress values of every task ascend, belong to an
  id already drawn, and do not exceed the progress of the task while it is in the running
  set.
\<close>

definition events_inv :: "coordinator \<Rightarrow> bool" where
  "events_inv c =
     (\<forall>tid. sorted (progress_values tid (events c)) \<and>
        (\<forall>n \<in> set (progress_values tid (events c)).
           tid < next_uuid c \<and>
           (\<forall>p. map_of (runningTasks c) tid = Some p \<longrightarrow> n \<le> progress (task p))))"

section \<open>The stages of the create-project workflow\<close>

text \<open>
  The five stages of \<open>executeCreateProjectWorkflow\<close> in their order: the key written to
  \<open>context\<close>, the property of \<open>requirements\<close> that the guard tests (none for the first
  and the last stage), and the registry key of the agent. The guard of a stage is true
  when that property is truthy and the agent is registered.
\<close>

definition create_stages :: "(string \<times> string option \<times> string) list" where
  "create_stages =
     [(''architecture'', None, ''architect''),
      (''database'', Some ''database'', ''database''),
      (''backend'', Some ''backend'', ''backend''),
      (''frontend'', Some ''frontend'', ''frontend''),
      (''testing'', None, ''tester'')]"

definition guard_true :: "(string \<Rightarrow> bool) \<Rightarrow> jsval \<Rightarrow> string \<times> string option \<times> string \<Rightarrow> bool" where
  "guard_true registered reqs st =
     (case st of (k, flag, agent) \<Rightarrow>
        (case flag of None \<Rightarrow> True | Some f \<Rightarrow> truthy (js_get reqs f)) \<and> registered agent)"

text \<open>
  The keys of \<open>context\<close> once the first \<open>n\<close> stages are behind: the two keys it is created
  with, then the key of every stage whose guard was true.
\<close>

definition keys_after :: "nat \<Rightarrow> (string \<Rightarrow> bool) \<Rightarrow> jsval \<Rightarrow> string list" where
  "keys_after n registered reqs =
     [''projectId'', ''requirements''] @
     map fst (filter (guard_true registered reqs) (take n create_stages))"

definition at_stage :: "nat \<Rightarrow> (string \<Rightarrow> bool) \<Rightarrow> proc \<Rightarrow> bool" where
  "at_stage n registered p =
     (map fst (wf_context p) = keys_after n registered (requirements (task p)) \<and>
      guard_true registered (requirements (task p)) (create_stages ! n))"

definition ctx_inv :: "(string \<Rightarrow> bool) \<Rightarrow> proc \<Rightarrow> bool" where
  "ctx_inv registered p =
     (case pc p of
        AwaitArchitect \<Rightarrow> at_stage 0 registered p
      | AwaitDatabase \<Rightarrow> at_stage 1 registered p
      | AwaitBackend \<Rightarrow> at_stage 2 registered p
      | AwaitFrontend \<Rightarrow> at_stage 3 registered p
      | AwaitTester \<Rightarrow> at_stage 4 registered p
      | AwaitWorkflow (Inr v) \<Rightarrow>
          task_type (task p) \<noteq> JStr ''create_project'' \<or>
          map fst (wf_context p) = keys_after 5 registered (requirements (task p))
      | InEmitCompleted \<Rightarrow>
          task_type (task p) \<noteq> JStr ''create_project'' \<or>
          map fst (wf_context p) = keys_after 5 registered (requirements (task p))
      | Finished \<Rightarrow>
          task_type (task p) \<noteq> JStr ''create_project'' \<or>
          status (task p) \<noteq> ''completed'' \<or>
          map fst (wf_context p) = keys_after 5 registered (requirements (task p))
      | _ \<Rightarrow> True)"

definition ctx_coord_inv :: "coordinator \<Rightarrow> bool" where
  "ctx_coord_inv c =
     (\<forall>tid p. map_of (runningTasks c) tid = Some p \<longrightarrow> ctx_inv (has (agents c)) p)"

section \<open>The concurrency cap\<close>

text \<open>
  \<open>executeTask\<close> never looks at \<open>maxConcurrentTasks\<close> and never touches \<open>taskQueue\<close>; only
  \<open>processTaskQueue\<close> compares the size of \<open>runningTasks\<close> with the cap.
\<close>

lemma executeTask_taskQueue: "taskQueue (executeTask r c) = taskQueue c"
  by (simp add: executeTask_def reject_request_def)

lemma executeTask_ignores_cap:
  "executeTask r (c\<lparr>maxConcurrentTasks := k\<rparr>) = (executeTask r c)\<lparr>maxConcurrentTasks := k\<rparr>"
  by (simp add: executeTask_def reject_request_def start_proc_def split: option.splits)

lemma processTaskQueue_at_cap:
  "int (length (runningTasks c)) \<ge> maxConcurrentTasks c \<Longrightarrow> processTaskQueue c = c"
  by (simp add: processTaskQueue_def)

text \<open>
  C1. The claim: the number of running tasks never exceeds \<open>maxConcurrentTasks\<close>, a
  submission beyond the cap being queued. In the code, two submissions to a coordinator
  whose cap is 1 are both started at once: \<open>runningTasks\<close> holds two pending tasks, both
  waiting for the architect, and the queue is empty.
\<close>

theorem executeTask_exceeds_cap:
  "maxConcurrentTasks two_submissions = 1 \<and>
   status_runningTasks two_submissions = 2 \<and>
   status_queuedTasks two_submissions = 0 \<and>
   status_of two_submissions 0 = Some ''pending'' \<and>
   pc_of two_submissions 0 = Some AwaitArchitect \<and>
   status_of two_submissions 2 = Some ''pending'' \<and>
   pc_of two_submissions 2 = Some AwaitArchitect"
  by code_simp

section \<open>The task timeout\<close>

text \<open>No action reads \<open>taskTimeout\<close>: its value changes nothing but itself.\<close>

lemma taskTimeout_read_nowhere:
  "step (c\<lparr>taskTimeout := k\<rparr>) a = (step c a)\<lparr>taskTimeout := k\<rparr>"
proof (cases a)
  case (Submit r)
  then show ?thesis
    by (simp add: executeTask_def reject_request_def start_proc_def split: option.splits)
next
  case (Resume tid env)
  then show ?thesis by (simp add: resume_def run_on_def split: option.splits pc.splits)
next
  case Tick
  then show ?thesis
    by (simp add: processTaskQueue_def executeTask_def reject_request_def start_proc_def
        split: list.splits option.splits)
next
  case (Cleanup tid)
  then show ?thesis by (simp add: cleanup_def split: option.splits)
next
  case (Elapse d)
  then show ?thesis by simp
next
  case (AgentExecute key t)
  then show ?thesis
    by (simp add: agent_execute_def split: option.splits sum.splits)
next
  case (AgentSettle key r)
  then show ?thesis
    by (simp add: agent_settle_def BaseAgent_executeTask_settle_def
        split: option.splits sum.splits)
qed

text \<open>
  C2. The claim: a task that is not terminal \<open>taskTimeout\<close> ms after its start is marked
  failed with a timeout error and gives its slot back. In the code \<open>taskTimeout\<close> is stored
  by the constructor and read nowhere: after 300001 ms the stalled task is still pending
  at its first \<open>await\<close>, still in \<open>runningTasks\<close>, no event was emitted and no clean-up timer
  is set.
\<close>

theorem stalled_task_never_times_out:
  "taskTimeout stalled_task = 300000 \<and>
   clock stalled_task = 300001 \<and>
   map_option createdAt (task_of stalled_task 0) = Some 0 \<and>
   status_of stalled_task 0 = Some ''pending'' \<and>
   pc_of stalled_task 0 = Some AwaitArchitect \<and>
   status_runningTasks stalled_task = 1 \<and>
   events stalled_task = [] \<and>
   timers stalled_task = []"
  by code_simp

section \<open>Unavailable agents\<close>

text \<open>
  The debug workflow needs its agent: without it the workflow throws at once. The
  create-project workflow tests the registry before every stage and skips a stage whose
  agent is missing.
\<close>

lemma executeDebugWorkflow_missing_agent:
  "\<not> has ags ''debugger'' \<Longrightarrow>
   executeDebugWorkflow ags p = (p\<lparr>pc := AwaitWorkflow (Inl DebugAgentNotAvailable)\<rparr>, [])"
  by (simp add: executeDebugWorkflow_def thrown_def)

lemma create_step1_skips: "\<not> has ags ''architect'' \<Longrightarrow> create_step1 ags p = create_step2 ags p"
  by (simp add: create_step1_def)

lemma create_step2_skips: "\<not> has ags ''database'' \<Longrightarrow> create_step2 ags p = create_step3 ags p"
  by (simp add: create_step2_def)

lemma create_step3_skips: "\<not> has ags ''backend'' \<Longrightarrow> create_step3 ags p = create_step4 ags p"
  by (simp add: create_step3_def)

lemma create_step4_skips: "\<not> has ags ''frontend'' \<Longrightarrow> create_step4 ags p = create_step5 ags p"
  by (simp add: create_step4_def)

lemma create_step5_skips: "\<not> has ags ''tester'' \<Longrightarrow> create_step5 ags p = create_finish p"
  by (simp add: create_step5_def)

text \<open>
  C5. The claim: a missing agent of a mandatory stage fails the workflow, a missing agent
  of any other stage only has its stage skipped. The first half holds
  (\<open>executeDebugWorkflow_missing_agent\<close>). The second half fails when the architect is the
  missing agent and a frontend is asked for: the architecture stage is skipped, the
  frontend agent reads \<open>architecture.frontend\<close> of the missing architecture, and the task
  fails with that TypeError at progress 0.
\<close>

theorem missing_architect_aborts_workflow:
  "map fst (agents frontend_without_architect) = [''frontend''] \<and>
   status_of frontend_without_architect 0 = Some ''failed'' \<and>
   progress_of frontend_without_architect 0 = Some 0 \<and>
   map_option task_error (task_of frontend_without_architect 0)
     = Some (Some (CannotReadProperties ''frontend'')) \<and>
   events frontend_without_architect = [TaskFailed 0 (CannotReadProperties ''frontend'')]"
  by code_simp

section \<open>Agent bookkeeping\<close>

text \<open>
  An agent's \<open>name\<close> is derived from its class name, and the registry key is written out in
  \<open>agentClasses\<close>. The two agree for one agent only.
\<close>

lemma agent_names:
  "map (\<lambda>cfg. (fst cfg, name (new_BaseAgent (fst (snd cfg))))) agentClasses =
     [(''architect'', ''projectarchitect''), (''frontend'', ''frontenddeveloper''),
      (''backend'', ''backenddeveloper''), (''database'', ''databasedesigner''),
      (''devops'', ''devops''), (''tester'', ''qatesting''),
      (''debugger'', ''debugdetective''), (''reviewer'', ''codereviewer'')]"
  by code_simp

text \<open>
  For the agent whose name is its key the handlers do their work, and in every case the
  caller gets the result or the error of \<open>processTask\<close>.
\<close>

lemma devops_bookkeeping:
  "busy_of devops_succeeds ''devops'' = Some False \<and>
   completedTasks_of devops_succeeds ''devops'' = Some 1 \<and>
   busy_of devops_fails ''devops'' = Some False \<and>
   errors_of devops_fails ''devops'' = Some [(0, AgentFailure ''boom'', JStr ''t1'')]"
  by code_simp

lemma settle_reaches_caller:
  "snd (BaseAgent_executeTask_settle key a t r c) = r"
  by (cases r) (simp_all add: BaseAgent_executeTask_settle_def)

text \<open>
  C9. The claim: a successful \<open>executeTask\<close> of an agent increments its completed-task
  counter, a failed one appends to its error log, and both leave the agent not busy. In
  the code the agent is free again in both runs, but the handlers look the agent up
  under \<open>projectarchitect\<close>, which is not a key of the registry: the counter of
  \<open>architect\<close> stays 0 and its error log stays empty.
\<close>

theorem architect_bookkeeping_lost:
  "busy_of architect_succeeds ''architect'' = Some False \<and>
   completedTasks_of architect_succeeds ''architect'' = Some 0 \<and>
   events architect_succeeds
     = [AgentTaskCompleted ''projectarchitect'' (JStr ''t1'') (JStr ''done'')] \<and>
   busy_of architect_fails ''architect'' = Some False \<and>
   errors_of architect_fails ''architect'' = Some [] \<and>
   events architect_fails
     = [AgentError ''projectarchitect'' (JStr ''t1'') (AgentFailure ''boom'')]"
  by code_simp

section \<open>The pieces of a workflow keep the invariant of their entry\<close>

lemma follows_refl: "follows p p"
  by (simp add: follows_def)

lemma follows_trans: "follows p q \<Longrightarrow> follows q r \<Longrightarrow> follows p r"
  by (auto simp: follows_def)

lemma progress_values_append:
  "progress_values tid (xs @ ys) = progress_values tid xs @ progress_values tid ys"
  by (induction tid xs rule: progress_values.induct) simp_all

lemma piece_ok_silent:
  "entry_inv q \<Longrightarrow> follows p q \<Longrightarrow> piece_ok p (q, [])"
  by (simp add: piece_ok_def emits_ok_def)

lemma piece_ok_thrown:
  assumes "status (task p) = ''pending''" "progress (task p) < 100"
    and "undefined_workflow (task_type (task p)) = None"
  shows "piece_ok p (thrown e p)"
  using assms
  by (simp add: piece_ok_def thrown_def emits_ok_def entry_inv_def follows_def)

lemma piece_ok_emitting:
  assumes "piece_ok q r" "follows p q" "progress (task q) = n"
  shows "piece_ok p (emitting (TaskProgress (task_id (task p)) n) r)"
proof -
  have "follows p (fst r)"
    using assms(1,2) by (auto simp: piece_ok_def intro: follows_trans)
  moreover have "emits_ok p (fst r) (TaskProgress (task_id (task p)) n # snd r)"
    using assms by (fastforce simp: piece_ok_def emits_ok_def follows_def)
  ultimately show ?thesis
    using assms(1) by (simp add: piece_ok_def emitting_def)
qed

lemma create_finish_ok:
  "pending_below n ''create_project'' p \<Longrightarrow> n \<le> 100 \<Longrightarrow> piece_ok p (create_finish p)"
  by (simp add: create_finish_def piece_ok_def emits_ok_def entry_inv_def pending_below_def
      follows_def undefined_workflow_def)

lemma create_step5_ok:
  "pending_below n ''create_project'' p \<Longrightarrow> n \<le> 85 \<Longrightarrow> piece_ok p (create_step5 ags p)"
  using create_finish_ok[of n p]
  by (simp add: create_step5_def piece_ok_def emits_ok_def entry_inv_def pending_below_def
      follows_def)

lemma create_step4_ok:
  "pending_below n ''create_project'' p \<Longrightarrow> n \<le> 60 \<Longrightarrow> piece_ok p (create_step4 ags p)"
  using create_step5_ok[of n p ags]
  by (simp add: create_step4_def piece_ok_def emits_ok_def entry_inv_def pending_below_def
      follows_def)

lemma create_step3_ok:
  "pending_below n ''create_project'' p \<Longrightarrow> n \<le> 35 \<Longrightarrow> piece_ok p (create_step3 ags p)"
  using create_step4_ok[of n p ags]
  by (simp add: create_step3_def piece_ok_def emits_ok_def entry_inv_def pending_below_def
      follows_def)

lemma create_step2_ok:
  "pending_below n ''create_project'' p \<Longrightarrow> n \<le> 20 \<Longrightarrow> piece_ok p (create_step2 ags p)"
  using create_step3_ok[of n p ags]
  by (simp add: create_step2_def piece_ok_def emits_ok_def entry_inv_def pending_below_def
      follows_def)

lemma create_step1_ok:
  "pending_below 0 ''create_project'' p \<Longrightarrow> piece_ok p (create_step1 ags p)"
  using create_step2_ok[of 0 p ags]
  by (simp add: create_step1_def piece_ok_def emits_ok_def entry_inv_def pending_below_def
      follows_def)

lemma after_stage_ok:
  assumes "pending_below m ''create_project'' p" "m < n" "n \<le> 100"
    and "\<And>q. pending_below n ''create_project'' q \<Longrightarrow> piece_ok q (next q)"
  shows "piece_ok p (after_stage k n r next p)"
proof (cases r)
  case (Inl e)
  have "piece_ok p (thrown e p)"
    using assms(1,2,3) by (intro piece_ok_thrown) (simp_all add: pending_below_def undefined_workflow_def)
  with Inl show ?thesis by (simp add: after_stage_def)
next
  case (Inr v)
  let ?q = "stage_done k n v p"
  have q: "pending_below n ''create_project'' ?q"
    using assms(1) by (simp add: stage_done_def pending_below_def)
  have pq: "follows p ?q"
    using assms(1,2) by (simp add: stage_done_def pending_below_def follows_def)
  have "progress (task ?q) = n"
    by (simp add: stage_done_def)
  from piece_ok_emitting[OF assms(4)[OF q] pq this] Inr show ?thesis
    by (simp add: after_stage_def)
qed

lemma after_analyze_ok:
  "pending_below 0 ''debug_code'' p \<Longrightarrow> piece_ok p (after_analyze r p)"
  by (cases r)
     (simp_all add: after_analyze_def thrown_def piece_ok_def emits_ok_def entry_inv_def
        pending_below_def follows_def undefined_workflow_def)

lemma debug_return_ok:
  "status (task p) = ''pending'' \<Longrightarrow> progress (task p) = 100 \<Longrightarrow>
   task_type (task p) = JStr ''debug_code'' \<Longrightarrow>
   piece_ok p (debug_return analysis fx p)"
  by (simp add: debug_return_def piece_ok_def emits_ok_def entry_inv_def follows_def
      undefined_workflow_def)

lemma after_fixes_ok:
  assumes "pending_below 50 ''debug_code'' p"
  shows "piece_ok p (after_fixes analysis r p)"
proof (cases r)
  case (Inl e)
  have "piece_ok p (thrown e p)"
    using assms by (intro piece_ok_thrown) (simp_all add: pending_below_def undefined_workflow_def)
  with Inl show ?thesis by (simp add: after_fixes_def)
next
  case (Inr fx)
  let ?q = "p\<lparr>task := (task p)\<lparr>progress := 100\<rparr>\<rparr>"
  have "piece_ok ?q (debug_return analysis fx ?q)"
    using assms by (intro debug_return_ok) (simp_all add: pending_below_def)
  moreover have "follows p ?q"
    using assms by (simp add: follows_def pending_below_def)
  moreover have "progress (task ?q) = 100"
    by simp
  ultimately show ?thesis
    using piece_ok_emitting[of ?q "debug_return analysis fx ?q" p 100] Inr
    by (simp add: after_fixes_def)
qed

lemma resume_workflow_ok:
  assumes "entry_inv p"
  shows "piece_ok p (resume_workflow ags env p)"
proof (cases "pc p")
  case AwaitArchitect
  with assms have "pending_below 0 ''create_project'' p" by (simp add: entry_inv_def)
  from after_stage_ok[OF this, of 20 "create_step2 ags"] AwaitArchitect show ?thesis
    by (simp add: resume_workflow_def create_step2_ok)
next
  case AwaitDatabase
  with assms have "pending_below 20 ''create_project'' p" by (simp add: entry_inv_def)
  from after_stage_ok[OF this, of 35 "create_step3 ags"] AwaitDatabase show ?thesis
    by (simp add: resume_workflow_def create_step3_ok)
next
  case AwaitBackend
  with assms have "pending_below 35 ''create_project'' p" by (simp add: entry_inv_def)
  from after_stage_ok[OF this, of 60 "create_step4 ags"] AwaitBackend show ?thesis
    by (simp add: resume_workflow_def create_step4_ok)
next
  case AwaitFrontend
  with assms have "pending_below 60 ''create_project'' p" by (simp add: entry_inv_def)
  from after_stage_ok[OF this, of 85 "create_step5 ags"] AwaitFrontend show ?thesis
    by (simp add: resume_workflow_def create_step5_ok)
next
  case AwaitTester
  with assms have "pending_below 85 ''create_project'' p" by (simp add: entry_inv_def)
  from after_stage_ok[OF this, of 95 create_finish] AwaitTester show ?thesis
    by (simp add: resume_workflow_def create_finish_ok)
next
  case AwaitAnalyze
  with assms have "pending_below 0 ''debug_code'' p" by (simp add: entry_inv_def)
  from after_analyze_ok[OF this] AwaitAnalyze show ?thesis
    by (simp add: resume_workflow_def)
next
  case (AwaitFixes analysis)
  with assms have "pending_below 50 ''debug_code'' p" by (simp add: entry_inv_def)
  from after_fixes_ok[OF this] AwaitFixes show ?thesis
    by (simp add: resume_workflow_def)
next
  case (AwaitWorkflow r)
  with assms show ?thesis by (simp add: resume_workflow_def piece_ok_silent follows_refl)
next
  case InEmitCompleted
  with assms show ?thesis by (simp add: resume_workflow_def piece_ok_silent follows_refl)
next
  case Finished
  with assms show ?thesis by (simp add: resume_workflow_def piece_ok_silent follows_refl)
qed

lemma executeTask_continue_ok:
  assumes "entry_inv p"
  shows "piece_ok p (executeTask_continue now l p)"
proof (cases "pc p")
  case (AwaitWorkflow r)
  with assms show ?thesis
    by (cases r)
       (simp_all add: executeTask_continue_def piece_ok_def emits_ok_def entry_inv_def
          follows_def mark_failed_def)
next
  case InEmitCompleted
  with assms show ?thesis
    by (cases l)
       (simp_all add: executeTask_continue_def piece_ok_def emits_ok_def entry_inv_def
          follows_def mark_failed_def)
qed (use assms in \<open>simp_all add: executeTask_continue_def piece_ok_silent follows_refl\<close>)

lemma call_method_defined:
  "call_method ''executeCreateProjectWorkflow'' body p = body p"
  "call_method ''executeDebugWorkflow'' body p = body p"
  by (simp_all add: call_method_def coordinator_methods_def)

lemma call_method_undefined:
  "call_method ''executeCodeReviewWorkflow'' body p
     = thrown (NotAFunction ''executeCodeReviewWorkflow'') p"
  "call_method ''executeOptimizationWorkflow'' body p
     = thrown (NotAFunction ''executeOptimizationWorkflow'') p"
  "call_method ''executeDeploymentWorkflow'' body p
     = thrown (NotAFunction ''executeDeploymentWorkflow'') p"
  by (simp_all add: call_method_def coordinator_methods_def)

lemma executeTaskWorkflow_ok:
  assumes "status (task p) = ''pending''" "progress (task p) = 0"
  shows "piece_ok p (executeTaskWorkflow ags pid p)"
proof -
  consider (create) "task_type (task p) = JStr ''create_project''"
    | (debug) "task_type (task p) = JStr ''debug_code''"
    | (other) "task_type (task p) \<noteq> JStr ''create_project''"
        "task_type (task p) \<noteq> JStr ''debug_code''"
    by blast
  then show ?thesis
  proof cases
    case create
    let ?q = "p\<lparr>wf_context := [(''projectId'', JNum (int pid)),
                                 (''requirements'', requirements (task p))]\<rparr>"
    have "pending_below 0 ''create_project'' ?q"
      using assms create by (simp add: pending_below_def)
    from create_step1_ok[OF this, of ags] create show ?thesis
      by (simp add: executeTaskWorkflow_def call_method_defined
          executeCreateProjectWorkflow_def piece_ok_def follows_def emits_ok_def)
  next
    case debug
    with assms show ?thesis
      by (simp add: executeTaskWorkflow_def call_method_defined executeDebugWorkflow_def
          thrown_def piece_ok_def emits_ok_def entry_inv_def pending_below_def follows_def
          undefined_workflow_def)
  next
    case other
    with assms show ?thesis
      by (simp add: executeTaskWorkflow_def call_method_undefined thrown_def piece_ok_def
          emits_ok_def entry_inv_def follows_def undefined_workflow_def)
  qed
qed

text \<open>The workflow never writes the status; only \<open>executeTask\<close> does.\<close>

lemma create_steps_status:
  "status (task (fst (create_finish p))) = status (task p)"
  "status (task (fst (create_step5 ags p))) = status (task p)"
  "status (task (fst (create_step4 ags p))) = status (task p)"
  "status (task (fst (create_step3 ags p))) = status (task p)"
  "status (task (fst (create_step2 ags p))) = status (task p)"
  "status (task (fst (create_step1 ags p))) = status (task p)"
  by (simp_all add: create_finish_def create_step5_def create_step4_def create_step3_def
      create_step2_def create_step1_def)

lemma executeTaskWorkflow_status:
  "status (task (fst (executeTaskWorkflow ags pid p))) = status (task p)"
  by (simp add: executeTaskWorkflow_def call_method_def coordinator_methods_def
      executeCreateProjectWorkflow_def executeDebugWorkflow_def thrown_def create_steps_status)

lemma resume_workflow_status:
  "status (task (fst (resume_workflow ags env p))) = status (task p)"
  by (cases "pc p")
     (simp_all add: resume_workflow_def after_stage_def after_analyze_def after_fixes_def
        debug_return_def thrown_def emitting_def stage_done_def create_steps_status
        split: sum.splits)

lemma start_proc_ok:
  "entry_inv (fst (start_proc c r))"
  "task_id (task (fst (start_proc c r))) = next_uuid c"
  "status (task (fst (start_proc c r))) = ''pending''"
  "sorted (progress_values tid (snd (start_proc c r)))"
  "n \<in> set (progress_values tid (snd (start_proc c r))) \<Longrightarrow>
     tid = next_uuid c \<and> n \<le> progress (task (fst (start_proc c r)))"
proof -
  let ?p = "\<lparr> task = new_task (next_uuid c) (clock c) r, wf_context = [], pc = Finished \<rparr>"
  have ok: "piece_ok ?p (start_proc c r)"
    unfolding start_proc_def by (rule executeTaskWorkflow_ok) (simp_all add: new_task_def)
  then show "entry_inv (fst (start_proc c r))"
    by (simp add: piece_ok_def)
  from ok show id: "task_id (task (fst (start_proc c r))) = next_uuid c"
    by (simp add: piece_ok_def follows_def new_task_def)
  show "status (task (fst (start_proc c r))) = ''pending''"
    by (simp add: start_proc_def executeTaskWorkflow_status new_task_def)
  from ok show "sorted (progress_values tid (snd (start_proc c r)))"
    by (simp add: piece_ok_def emits_ok_def)
  assume "n \<in> set (progress_values tid (snd (start_proc c r)))"
  with ok show "tid = next_uuid c \<and> n \<le> progress (task (fst (start_proc c r)))"
    by (simp add: piece_ok_def emits_ok_def new_task_def)
qed

section \<open>What one action does to the running set and the event log\<close>

lemma start_proc_taskQueue: "start_proc (c\<lparr>taskQueue := q\<rparr>) r = start_proc c r"
  by (simp add: start_proc_def)

lemma executeTask_cases:
  obtains (start) "validateTaskRequest r"
      "runningTasks (executeTask r c)
         = AList.update (next_uuid c) (fst (start_proc c r)) (runningTasks c)"
      "events (executeTask r c) = events c @ snd (start_proc c r)"
      "next_uuid (executeTask r c) = next_uuid c + uuids_used r"
  | (reject) "\<not> validateTaskRequest r"
      "runningTasks (executeTask r c)
         = (case map_of (runningTasks c) (next_uuid c) of
              None \<Rightarrow> runningTasks c
            | Some p \<Rightarrow> AList.update (next_uuid c)
                         (mark_failed (clock c) InvalidTaskRequest p) (runningTasks c))"
      "events (executeTask r c) = events c @ [TaskFailed (next_uuid c) InvalidTaskRequest]"
      "next_uuid (executeTask r c) = Suc (next_uuid c)"
  by (cases "validateTaskRequest r") (simp_all add: executeTask_def reject_request_def)

lemma step_cases:
  obtains (same) "runningTasks (step c a) = runningTasks c"
      "next_uuid (step c a) = next_uuid c"
      "\<And>tid. progress_values tid (events (step c a)) = progress_values tid (events c)"
  | (workflow) tid env p where "map_of (runningTasks c) tid = Some p"
      "runningTasks (step c a)
         = AList.update tid (fst (resume_workflow (agents c) env p)) (runningTasks c)"
      "events (step c a) = events c @ snd (resume_workflow (agents c) env p)"
      "next_uuid (step c a) = next_uuid c"
  | (continue) tid env p where "map_of (runningTasks c) tid = Some p"
      "runningTasks (step c a)
         = AList.update tid (fst (executeTask_continue (clock c) env p)) (runningTasks c)"
      "events (step c a) = events c @ snd (executeTask_continue (clock c) env p)"
      "next_uuid (step c a) = next_uuid c"
  | (start) r where "validateTaskRequest r"
      "runningTasks (step c a)
         = AList.update (next_uuid c) (fst (start_proc c r)) (runningTasks c)"
      "events (step c a) = events c @ snd (start_proc c r)"
      "next_uuid (step c a) = next_uuid c + uuids_used r"
  | (reject) r where "\<not> validateTaskRequest r"
      "runningTasks (step c a)
         = (case map_of (runningTasks c) (next_uuid c) of
              None \<Rightarrow> runningTasks c
            | Some p \<Rightarrow> AList.update (next_uuid c)
                         (mark_failed (clock c) InvalidTaskRequest p) (runningTasks c))"
      "events (step c a) = events c @ [TaskFailed (next_uuid c) InvalidTaskRequest]"
      "next_uuid (step c a) = Suc (next_uuid c)"
  | (cleanup) tid where "runningTasks (step c a) = AList.delete tid (runningTasks c)"
      "events (step c a) = events c"
      "next_uuid (step c a) = next_uuid c"
proof (cases a)
  case (Submit r)
  show ?thesis
  proof (cases rule: executeTask_cases[of r c])
    case start
    with Submit show ?thesis by (intro that(4)[of r]) simp_all
  next
    case reject
    with Submit show ?thesis by (intro that(5)[of r]) simp_all
  qed
next
  case (Resume tid env)
  show ?thesis
  proof (cases "map_of (runningTasks c) tid")
    case None
    with Resume show ?thesis by (intro that(1)) (simp_all add: resume_def)
  next
    case (Some p)
    show ?thesis
    proof (cases "pc p")
      case Finished
      with Some Resume show ?thesis by (intro that(1)) (simp_all add: resume_def)
    next
      case (AwaitWorkflow r)
      with Some Resume show ?thesis
        by (intro that(3)[of tid p env]) (simp_all add: resume_def run_on_def)
    next
      case InEmitCompleted
      with Some Resume show ?thesis
        by (intro that(3)[of tid p env]) (simp_all add: resume_def run_on_def)
    qed (use Some Resume in \<open>(intro that(2)[of tid p env]; simp add: resume_def)+\<close>)
  qed
next
  case Tick
  show ?thesis
  proof (cases "coord_initialized c \<and> taskQueue c \<noteq> [] \<and>
                \<not> int (length (runningTasks c)) \<ge> maxConcurrentTasks c")
    case False
    with Tick show ?thesis
      by (intro that(1)) (auto simp: processTaskQueue_def split: list.splits)
  next
    case True
    then obtain r q where q: "taskQueue c = r # q" by (cases "taskQueue c") auto
    with True Tick have s: "step c a = executeTask r (c\<lparr>taskQueue := q\<rparr>)"
      by (simp add: processTaskQueue_def)
    show ?thesis
    proof (cases rule: executeTask_cases[of r "c\<lparr>taskQueue := q\<rparr>"])
      case start
      with s show ?thesis by (intro that(4)[of r]) (simp_all add: start_proc_taskQueue)
    next
      case reject
      with s show ?thesis by (intro that(5)[of r]) (simp_all split: option.splits)
    qed
  qed
next
  case (Cleanup tid)
  show ?thesis
  proof (cases "find (\<lambda>tm. snd tm = tid \<and> fst tm \<le> clock c) (timers c)")
    case None
    with Cleanup show ?thesis by (intro that(1)) (simp_all add: cleanup_def)
  next
    case (Some tm)
    with Cleanup show ?thesis by (intro that(6)[of tid]) (simp_all add: cleanup_def)
  qed
next
  case (Elapse d)
  then show ?thesis by (intro that(1)) simp_all
next
  case (AgentExecute key t)
  then show ?thesis
    by (intro that(1))
       (simp_all add: agent_execute_def BaseAgent_executeTask_def split: option.splits)
next
  case (AgentSettle key r)
  then show ?thesis
    by (intro that(1))
       (simp_all add: agent_settle_def BaseAgent_executeTask_settle_def
          progress_values_append split: option.splits sum.splits)
qed

text \<open>No action adds a key to the registry or removes one.\<close>

lemma has_map_entry: "has (AList.map_entry k f ags) k' = has ags k'"
  by (simp add: has_def map_of_map_entry split: option.splits)

lemma has_agents_step: "has (agents (step c a)) k = has (agents c) k"
proof (cases a)
  case (Submit r)
  then show ?thesis by (simp add: executeTask_def reject_request_def)
next
  case (Resume tid env)
  then show ?thesis by (simp add: resume_def run_on_def split: option.splits pc.splits)
next
  case Tick
  then show ?thesis
    by (simp add: processTaskQueue_def executeTask_def reject_request_def split: list.splits)
next
  case (Cleanup tid)
  then show ?thesis by (simp add: cleanup_def split: option.splits)
next
  case (Elapse d)
  then show ?thesis by simp
next
  case (AgentExecute key t)
  then show ?thesis
    by (simp add: agent_execute_def BaseAgent_executeTask_def has_map_entry
        split: option.splits)
next
  case (AgentSettle key r)
  then show ?thesis
    by (simp add: agent_settle_def BaseAgent_executeTask_settle_def has_map_entry
        on_agentTaskCompleted_def on_agentError_def split: option.splits sum.splits)
qed

section \<open>The invariants hold in every run\<close>

lemma coord_inv_fresh: "coord_inv c \<Longrightarrow> map_of (runningTasks c) (next_uuid c) = None"
  by (cases "map_of (runningTasks c) (next_uuid c)") (auto simp: coord_inv_def)

lemma coord_inv_update:
  assumes "coord_inv c" "entry_inv q" "task_id (task q) = tid" "tid < nu" "next_uuid c \<le> nu"
    and "runningTasks c' = AList.update tid q (runningTasks c)" "next_uuid c' = nu"
  shows "coord_inv c'"
  unfolding coord_inv_def
proof (intro allI impI)
  fix t p
  assume tp: "map_of (runningTasks c') t = Some p"
  show "t < next_uuid c' \<and> task_id (task p) = t \<and> entry_inv p"
  proof (cases "t = tid")
    case True
    with tp assms(6) have "p = q" by (simp add: update_conv')
    with True assms(2,3,4,7) show ?thesis by simp
  next
    case False
    with tp assms(6) have "map_of (runningTasks c) t = Some p" by (simp add: update_conv')
    with assms(1) have "t < next_uuid c \<and> task_id (task p) = t \<and> entry_inv p"
      by (simp add: coord_inv_def)
    with assms(5,7) show ?thesis by simp
  qed
qed

lemma coord_inv_step:
  assumes "coord_inv c"
  shows "coord_inv (step c a)"
proof (cases rule: step_cases[of c a])
  case same
  with assms show ?thesis by (simp add: coord_inv_def)
next
  case (workflow tid env p)
  from assms workflow(1) have p: "entry_inv p" "task_id (task p) = tid" "tid < next_uuid c"
    by (auto simp: coord_inv_def)
  from resume_workflow_ok[OF p(1), of "agents c" env] p(2)
  have "entry_inv (fst (resume_workflow (agents c) env p))"
    "task_id (task (fst (resume_workflow (agents c) env p))) = tid"
    by (simp_all add: piece_ok_def follows_def)
  from coord_inv_update[OF assms this p(3) order_refl workflow(2,4)] show ?thesis .
next
  case (continue tid env p)
  from assms continue(1) have p: "entry_inv p" "task_id (task p) = tid" "tid < next_uuid c"
    by (auto simp: coord_inv_def)
  from executeTask_continue_ok[OF p(1), of "clock c" env] p(2)
  have "entry_inv (fst (executeTask_continue (clock c) env p))"
    "task_id (task (fst (executeTask_continue (clock c) env p))) = tid"
    by (simp_all add: piece_ok_def follows_def)
  from coord_inv_update[OF assms this p(3) order_refl continue(2,4)] show ?thesis .
next
  case (start r)
  have "next_uuid c < next_uuid c + uuids_used r" "next_uuid c \<le> next_uuid c + uuids_used r"
    by (simp_all add: uuids_used_def)
  from coord_inv_update[OF assms start_proc_ok(1,2) this start(2,4)] show ?thesis .
next
  case (reject r)
  with assms coord_inv_fresh[OF assms] show ?thesis
    by (auto simp: coord_inv_def less_Suc_eq)
next
  case (cleanup tid)
  with assms show ?thesis
    by (auto simp: coord_inv_def delete_conv')
qed

lemma follows_step:
  assumes "coord_inv c" "map_of (runningTasks c) tid = Some p"
    and "map_of (runningTasks (step c a)) tid = Some q"
  shows "follows p q"
proof (cases rule: step_cases[of c a])
  case same
  with assms show ?thesis by (simp add: follows_refl)
next
  case (workflow tid' env p')
  from assms(1) workflow(1) have "entry_inv p'" by (auto simp: coord_inv_def)
  with resume_workflow_ok[of p' "agents c" env] workflow assms show ?thesis
    by (cases "tid = tid'") (auto simp: update_conv' piece_ok_def follows_refl)
next
  case (continue tid' env p')
  from assms(1) continue(1) have "entry_inv p'" by (auto simp: coord_inv_def)
  with executeTask_continue_ok[of p' "clock c" env] continue assms show ?thesis
    by (cases "tid = tid'") (auto simp: update_conv' piece_ok_def follows_refl)
next
  case (start r)
  with assms coord_inv_fresh[OF assms(1)] show ?thesis
    by (cases "tid = next_uuid c") (auto simp: update_conv' follows_refl)
next
  case (reject r)
  with assms coord_inv_fresh[OF assms(1)] show ?thesis
    by (simp add: follows_refl)
next
  case (cleanup tid')
  with assms show ?thesis
    by (cases "tid = tid'") (auto simp: delete_conv' follows_refl)
qed


lemma events_inv_update:
  assumes "events_inv c"
    and old: "\<And>n. n \<in> set (progress_values tid (events c)) \<Longrightarrow> n \<le> lo"
    and sorted_new: "\<And>t. sorted (progress_values t evs)"
    and new: "\<And>t n. n \<in> set (progress_values t evs) \<Longrightarrow>
                t = tid \<and> lo \<le> n \<and> n \<le> progress (task q)"
    and "lo \<le> progress (task q)" "tid < nu" "next_uuid c \<le> nu"
    and c': "runningTasks c' = AList.update tid q (runningTasks c)"
      "events c' = events c @ evs" "next_uuid c' = nu"
  shows "events_inv c'"
proof -
  have s: "sorted (progress_values t (events c'))" for t
    unfolding c'(2) progress_values_append sorted_append
  proof (intro conjI ballI)
    show "sorted (progress_values t (events c))"
      using assms(1) by (simp add: events_inv_def)
    show "sorted (progress_values t evs)"
      by (rule sorted_new)
    fix x y
    assume x: "x \<in> set (progress_values t (events c))" and y: "y \<in> set (progress_values t evs)"
    from new[OF y] have "t = tid" "lo \<le> y" by simp_all
    with x old[of x] show "x \<le> y" by simp
  qed
  have b: "t < next_uuid c' \<and>
           (\<forall>p. map_of (runningTasks c') t = Some p \<longrightarrow> n \<le> progress (task p))"
    if "n \<in> set (progress_values t (events c'))" for t n
  proof -
  from that consider (before) "n \<in> set (progress_values t (events c))"
    | (now) "n \<in> set (progress_values t evs)"
    by (auto simp: c'(2) progress_values_append)
  then show ?thesis
  proof cases
    case before
    with assms(1) have a: "t < next_uuid c"
      "\<And>p. map_of (runningTasks c) t = Some p \<Longrightarrow> n \<le> progress (task p)"
      by (auto simp: events_inv_def)
    show ?thesis
    proof (cases "t = tid")
      case True
      with before old[of n] assms(5) have "n \<le> progress (task q)" by simp
      with True assms(6) c'(1,3) show ?thesis by (simp add: update_conv')
    next
      case False
      with a assms(7) c'(1,3) show ?thesis by (simp add: update_conv')
    qed
  next
    case now
    from new[OF now] assms(6) c'(1,3) show ?thesis by (simp add: update_conv')
  qed
  qed
  from s b show ?thesis
    unfolding events_inv_def by blast
qed

lemma events_inv_step:
  assumes "coord_inv c" "events_inv c"
  shows "events_inv (step c a)"
proof (cases rule: step_cases[of c a])
  case same
  with assms(2) show ?thesis by (simp add: events_inv_def)
next
  case (workflow tid env p)
  let ?r = "resume_workflow (agents c) env p"
  from assms(1) workflow(1) have p: "entry_inv p" "task_id (task p) = tid" "tid < next_uuid c"
    by (auto simp: coord_inv_def)
  from resume_workflow_ok[OF p(1), of "agents c" env]
  have e: "emits_ok p (fst ?r) (snd ?r)" and f: "follows p (fst ?r)"
    by (simp_all add: piece_ok_def)
  show ?thesis
  proof (rule events_inv_update[OF assms(2) _ _ _ _ p(3) order_refl workflow(2,3,4)])
    fix n assume "n \<in> set (progress_values tid (events c))"
    with assms(2) workflow(1) show "n \<le> progress (task p)"
      by (auto simp: events_inv_def)
  next
    fix t show "sorted (progress_values t (snd ?r))"
      using e by (simp add: emits_ok_def)
  next
    fix t n assume "n \<in> set (progress_values t (snd ?r))"
    with e p(2) show "t = tid \<and> progress (task p) \<le> n \<and> n \<le> progress (task (fst ?r))"
      by (simp add: emits_ok_def)
  next
    from f show "progress (task p) \<le> progress (task (fst ?r))"
      by (simp add: follows_def)
  qed
next
  case (continue tid env p)
  let ?r = "executeTask_continue (clock c) env p"
  from assms(1) continue(1) have p: "entry_inv p" "task_id (task p) = tid" "tid < next_uuid c"
    by (auto simp: coord_inv_def)
  from executeTask_continue_ok[OF p(1), of "clock c" env]
  have e: "emits_ok p (fst ?r) (snd ?r)" and f: "follows p (fst ?r)"
    by (simp_all add: piece_ok_def)
  show ?thesis
  proof (rule events_inv_update[OF assms(2) _ _ _ _ p(3) order_refl continue(2,3,4)])
    fix n assume "n \<in> set (progress_values tid (events c))"
    with assms(2) continue(1) show "n \<le> progress (task p)"
      by (auto simp: events_inv_def)
  next
    fix t show "sorted (progress_values t (snd ?r))"
      using e by (simp add: emits_ok_def)
  next
    fix t n assume "n \<in> set (progress_values t (snd ?r))"
    with e p(2) show "t = tid \<and> progress (task p) \<le> n \<and> n \<le> progress (task (fst ?r))"
      by (simp add: emits_ok_def)
  next
    from f show "progress (task p) \<le> progress (task (fst ?r))"
      by (simp add: follows_def)
  qed
next
  case (start r)
  have u: "next_uuid c < next_uuid c + uuids_used r" "next_uuid c \<le> next_uuid c + uuids_used r"
    by (simp_all add: uuids_used_def)
  show ?thesis
  proof (rule events_inv_update[OF assms(2) _ _ _ _ u start(2,3,4), of 0])
    fix n assume "n \<in> set (progress_values (next_uuid c) (events c))"
    with assms(2) have "next_uuid c < next_uuid c"
      by (auto simp: events_inv_def)
    then show "n \<le> 0" by simp
  next
    fix t show "sorted (progress_values t (snd (start_proc c r)))"
      by (rule start_proc_ok(4))
  next
    fix t n assume "n \<in> set (progress_values t (snd (start_proc c r)))"
    from start_proc_ok(5)[OF this]
    show "t = next_uuid c \<and> 0 \<le> n \<and> n \<le> progress (task (fst (start_proc c r)))"
      by simp
  qed simp
next
  case (reject r)
  with assms(2) coord_inv_fresh[OF assms(1)] show ?thesis
    by (auto simp: events_inv_def progress_values_append less_Suc_eq)
next
  case (cleanup tid)
  with assms(2) show ?thesis
    by (auto simp: events_inv_def delete_conv')
qed

lemma inv_run:
  "coord_inv c \<Longrightarrow> events_inv c \<Longrightarrow> coord_inv (run c acts) \<and> events_inv (run c acts)"
  unfolding run_def
  by (induction acts arbitrary: c) (simp_all add: coord_inv_step events_inv_step)

lemma started_fields:
  "runningTasks (started ok m t) = []"
  "events (started ok m t) = []"
  "taskQueue (started ok m t) = []"
  by (simp_all add: started_def initialize_def initializeAgents_def constructor_def)

lemma inv_started: "coord_inv (started ok m t) \<and> events_inv (started ok m t)"
  by (simp add: coord_inv_def events_inv_def started_fields)

lemma inv_reachable:
  "coord_inv (run (started ok m t) acts)"
  "events_inv (run (started ok m t) acts)"
  using inv_run[of "started ok m t" acts] inv_started[of ok m t] by simp_all

lemma has_agents_run: "has (agents (run c acts)) k = has (agents c) k"
  unfolding run_def
  by (induction acts arbitrary: c) (simp_all add: has_agents_step)

section \<open>The status of a task\<close>


lemma entry_inv_completed:
  "entry_inv p \<Longrightarrow> status (task p) = ''completed'' \<Longrightarrow> progress (task p) = 100"
  by (cases "pc p") (auto simp: entry_inv_def pending_below_def split: sum.splits)

lemma entry_inv_progress: "entry_inv p \<Longrightarrow> progress (task p) \<le> 100"
  by (cases "pc p") (auto simp: entry_inv_def pending_below_def split: sum.splits)

lemma entry_inv_progress_100:
  assumes "entry_inv p" "progress (task p) = 100" "task_error (task p) = None"
  shows "status (task p) = ''completed'' \<or>
         status (task p) = ''pending'' \<and> (\<exists>v. pc p = AwaitWorkflow (Inr v))"
proof (cases "pc p")
  case (AwaitWorkflow r)
  with assms show ?thesis by (cases r) (auto simp: entry_inv_def)
qed (use assms in \<open>auto simp: entry_inv_def pending_below_def\<close>)

lemma entry_inv_failed:
  assumes "entry_inv p" "status (task p) = ''failed''" "result (task p) = None"
  shows "progress (task p) < 100"
proof (cases "pc p")
  case (AwaitWorkflow r)
  with assms show ?thesis by (cases r) (auto simp: entry_inv_def)
qed (use assms in \<open>auto simp: entry_inv_def pending_below_def\<close>)

text \<open>
  What the catch block does to a task that is already \<open>completed\<close>: with the listener of
  the command line interface attached, a debug task whose workflow returned is
  \<open>completed\<close> inside \<open>emit('taskCompleted')\<close>, the listener throws, and the task ends
  \<open>failed\<close> at progress 100, holding a result and an error.
\<close>

lemma listener_throws_after_completed:
  "status_history (started all_agents None None)
     (debug_run @ [Resume 0 (cli_completedListener debug_in_emit 0)]) 0
   = [None, Some ''pending'', Some ''pending'', Some ''pending'', Some ''completed'',
      Some ''failed'']"
  by code_simp

lemma listener_throws_after_completed_task:
  "map_option (\<lambda>p. (status (task p), progress (task p), task_error (task p),
                     result (task p) \<noteq> None))
     (map_of (runningTasks (step debug_in_emit (Resume 0 (cli_completedListener debug_in_emit 0))))
        0)
   = Some (''failed'', 100, Some (NotAFunction ''chalk.orange''), True)"
  by code_simp




section \<open>The progress of a task\<close>

text \<open>
  C7, as the code has it. The claim: progress never decreases, and it is 100 exactly when
  the status is Completed. In every run the progress of a task never decreases from one
  action to the next and never exceeds 100, the values of its progress events ascend, and
  a completed task has progress 100. Conversely a task with progress 100 and no error
  stored is \<open>completed\<close>, or it is \<open>pending\<close> with its workflow returned: the workflow
  sets the progress to 100 as its last step, before \<open>executeTask\<close> sets the status. And a
  task that is \<open>failed\<close> without a result has progress below 100. A task that holds both a
  result and an error is left open.
\<close>

theorem progress_monotone:
  "(progress_of (run (started ok m t) acts) tid = Some n \<and>
    progress_of (step (run (started ok m t) acts) a) tid = Some n' \<longrightarrow> n \<le> n') \<and>
   (progress_of (run (started ok m t) acts) tid = Some n \<longrightarrow> n \<le> 100) \<and>
   (status_of (run (started ok m t) acts) tid = Some ''completed'' \<longrightarrow>
      progress_of (run (started ok m t) acts) tid = Some 100) \<and>
   sorted (progress_values tid (events (run (started ok m t) acts))) \<and>
   (progress_of (run (started ok m t) acts) tid = Some 100 \<and>
    task_error_of (run (started ok m t) acts) tid = Some None \<longrightarrow>
      status_of (run (started ok m t) acts) tid = Some ''completed'' \<or>
      status_of (run (started ok m t) acts) tid = Some ''pending'' \<and>
      (\<exists>v. pc_of (run (started ok m t) acts) tid = Some (AwaitWorkflow (Inr v)))) \<and>
   (status_of (run (started ok m t) acts) tid = Some ''failed'' \<and>
    result_of (run (started ok m t) acts) tid = Some None \<and>
    progress_of (run (started ok m t) acts) tid = Some n \<longrightarrow> n < 100)"
proof -
  let ?s = "run (started ok m t) acts"
  have inv: "coord_inv ?s" by (rule inv_reachable)
  have "n \<le> n'" if "progress_of ?s tid = Some n" "progress_of (step ?s a) tid = Some n'"
  proof -
    from that obtain p q where "map_of (runningTasks ?s) tid = Some p" "n = progress (task p)"
      "map_of (runningTasks (step ?s a)) tid = Some q" "n' = progress (task q)"
      by (auto simp: progress_of_def)
    with follows_step[OF inv, of tid p a q] show ?thesis by (simp add: follows_def)
  qed
  moreover have "n \<le> 100" if "progress_of ?s tid = Some n"
  proof -
    from that obtain p where "map_of (runningTasks ?s) tid = Some p" "n = progress (task p)"
      by (auto simp: progress_of_def)
    with inv entry_inv_progress[of p] show ?thesis by (auto simp: coord_inv_def)
  qed
  moreover have "progress_of ?s tid = Some 100" if "status_of ?s tid = Some ''completed''"
  proof -
    from that obtain p where p: "map_of (runningTasks ?s) tid = Some p"
      "status (task p) = ''completed''"
      by (auto simp: status_of_def)
    with inv have "entry_inv p" by (auto simp: coord_inv_def)
    from entry_inv_completed[OF this p(2)] p(1) show ?thesis by (simp add: progress_of_def)
  qed
  moreover have "sorted (progress_values tid (events ?s))"
    using inv_reachable(2)[of ok m t acts] by (simp add: events_inv_def)
  moreover have "status_of ?s tid = Some ''completed'' \<or>
      status_of ?s tid = Some ''pending'' \<and> (\<exists>v. pc_of ?s tid = Some (AwaitWorkflow (Inr v)))"
    if "progress_of ?s tid = Some 100" "task_error_of ?s tid = Some None"
  proof -
    from that obtain p where p: "map_of (runningTasks ?s) tid = Some p"
      "progress (task p) = 100" "task_error (task p) = None"
      by (auto simp: progress_of_def task_error_of_def)
    with inv have "entry_inv p" by (auto simp: coord_inv_def)
    from entry_inv_progress_100[OF this p(2,3)] p(1) show ?thesis
      by (auto simp: status_of_def pc_of_def)
  qed
  moreover have "n < 100"
    if "status_of ?s tid = Some ''failed''" "result_of ?s tid = Some None"
      "progress_of ?s tid = Some n"
  proof -
    from that obtain p where p: "map_of (runningTasks ?s) tid = Some p"
      "status (task p) = ''failed''" "result (task p) = None" "n = progress (task p)"
      by (auto simp: status_of_def result_of_def progress_of_def)
    with inv have "entry_inv p" by (auto simp: coord_inv_def)
    from entry_inv_failed[OF this p(2,3)] p(4) show ?thesis by simp
  qed
  ultimately show ?thesis by blast
qed

theorem progress_monotone_witness:
  "progress_of (run (started all_agents None None) completed_run) 0 = Some 100 \<and>
   progress_of (step (run (started all_agents None None) completed_run) (Elapse 1)) 0 = Some 100 \<and>
   task_error_of (run (started all_agents None None) completed_run) 0 = Some None \<and>
   status_of (run (started all_agents None None) completed_run) 0 = Some ''completed'' \<and>
   sorted (progress_values 0 (events (run (started all_agents None None) completed_run))) \<and>
   status_of (run (started all_agents None None)
                [Submit (typed_request ''review_code''), Resume 0 (Inr JNull)]) 0
     = Some ''failed'' \<and>
   result_of (run (started all_agents None None)
                [Submit (typed_request ''review_code''), Resume 0 (Inr JNull)]) 0
     = Some None \<and>
   progress_of (run (started all_agents None None)
                  [Submit (typed_request ''review_code''), Resume 0 (Inr JNull)]) 0
     = Some 0"
proof -
  let ?c = "started all_agents None None"
  let ?rev = "[Submit (typed_request ''review_code''), Resume 0 (Inr JNull)]"
  have h: "progress_of (run ?c completed_run) 0 = Some 100"
    "progress_of (step (run ?c completed_run) (Elapse 1)) 0 = Some 100"
    "task_error_of (run ?c completed_run) 0 = Some None"
    "status_of (run ?c completed_run) 0 = Some ''completed''"
    "status_of (run ?c ?rev) 0 = Some ''failed''"
    "result_of (run ?c ?rev) 0 = Some None"
    "progress_of (run ?c ?rev) 0 = Some 0"
    by code_simp+
  show ?thesis
    using h progress_monotone[of all_agents None None completed_run 0 100 "Elapse 1" 100]
      progress_monotone[of all_agents None None ?rev 0 0]
    by simp
qed

text \<open>
  The claim of C7 fails between the last step of the workflow and the continuation of
  \<open>executeTask\<close>: the progress is 100, its event is out, and the status is still
  \<open>pending\<close>.
\<close>

theorem progress_100_while_pending:
  "progress_of workflow_returned 0 = Some 100 \<and>
   status_of workflow_returned 0 = Some ''pending'' \<and>
   events workflow_returned = [TaskProgress 0 20, TaskProgress 0 95, TaskProgress 0 100]"
  by code_simp

section \<open>Admission of a request\<close>

lemma validateTaskRequest_iff:
  "validateTaskRequest r \<longleftrightarrow> truthy (req_type r) \<and> truthy (req_description r)"
  by (simp add: validateTaskRequest_def)

lemma executeTask_valid_entry:
  "validateTaskRequest r \<Longrightarrow>
   map_of (runningTasks (executeTask r c)) (next_uuid c) = Some (fst (start_proc c r))"
  by (simp add: executeTask_def update_conv')

lemma start_proc_unknown_type:
  "req_type r \<notin> set known_task_types \<Longrightarrow>
   pc (fst (start_proc c r)) = AwaitWorkflow (Inl (UnsupportedTaskType (req_type r)))"
  by (simp add: start_proc_def executeTaskWorkflow_def known_task_types_def new_task_def
      thrown_def)

text \<open>
  C4, as the code has it. The claim: a request is rejected exactly when its kind is not a
  known one or its description is empty, and a rejected request creates no task and no
  terminal event. In the code \<open>validateTaskRequest\<close> rejects exactly when the type is falsy
  or the description is falsy. In every run of an initialized coordinator a rejected
  submission leaves \<open>runningTasks\<close> as it was and fails within the call, the
  \<open>taskFailed\<close> event of the \<open>catch\<close> block carrying the id drawn for it; an accepted
  submission puts a pending task into \<open>runningTasks\<close>, and when its type is not a known
  one the dispatcher throws the unsupported-type error into it.
\<close>

theorem admission:
  "(validateTaskRequest r \<longleftrightarrow> truthy (req_type r) \<and> truthy (req_description r)) \<and>
   (\<not> validateTaskRequest r \<longrightarrow>
      runningTasks (step (run (started ok m t) acts) (Submit r))
        = runningTasks (run (started ok m t) acts) \<and>
      events (step (run (started ok m t) acts) (Submit r))
        = events (run (started ok m t) acts)
          @ [TaskFailed (next_uuid (run (started ok m t) acts)) InvalidTaskRequest]) \<and>
   (validateTaskRequest r \<longrightarrow>
      status_of (step (run (started ok m t) acts) (Submit r))
        (next_uuid (run (started ok m t) acts)) = Some ''pending'') \<and>
   (validateTaskRequest r \<and> req_type r \<notin> set known_task_types \<longrightarrow>
      pc_of (step (run (started ok m t) acts) (Submit r))
        (next_uuid (run (started ok m t) acts))
        = Some (AwaitWorkflow (Inl (UnsupportedTaskType (req_type r)))))"
proof -
  let ?s = "run (started ok m t) acts"
  have fresh: "map_of (runningTasks ?s) (next_uuid ?s) = None"
    by (rule coord_inv_fresh) (rule inv_reachable)
  have "runningTasks (step ?s (Submit r)) = runningTasks ?s \<and>
        events (step ?s (Submit r)) = events ?s @ [TaskFailed (next_uuid ?s) InvalidTaskRequest]"
    if "\<not> validateTaskRequest r"
    using that fresh by (simp add: executeTask_def reject_request_def)
  moreover have "status_of (step ?s (Submit r)) (next_uuid ?s) = Some ''pending''"
    if "validateTaskRequest r"
    using executeTask_valid_entry[OF that, of ?s] start_proc_ok(3)[of ?s r]
    by (simp add: status_of_def)
  moreover have "pc_of (step ?s (Submit r)) (next_uuid ?s)
                   = Some (AwaitWorkflow (Inl (UnsupportedTaskType (req_type r))))"
    if "validateTaskRequest r" "req_type r \<notin> set known_task_types"
    using executeTask_valid_entry[OF that(1), of ?s] start_proc_unknown_type[OF that(2), of ?s]
    by (simp add: pc_of_def)
  ultimately show ?thesis
    using validateTaskRequest_iff[of r] by blast
qed

theorem admission_witness:
  "\<not> validateTaskRequest empty_description \<and>
   runningTasks (step (run (started all_agents None None) []) (Submit empty_description)) = [] \<and>
   events (step (run (started all_agents None None) []) (Submit empty_description))
     = [TaskFailed 0 InvalidTaskRequest] \<and>
   validateTaskRequest (typed_request ''bogus'') \<and>
   JStr ''bogus'' \<notin> set known_task_types \<and>
   status_of (step (run (started all_agents None None) []) (Submit (typed_request ''bogus''))) 0
     = Some ''pending'' \<and>
   pc_of (step (run (started all_agents None None) []) (Submit (typed_request ''bogus''))) 0
     = Some (AwaitWorkflow (Inl (UnsupportedTaskType (JStr ''bogus''))))"
proof -
  have h: "\<not> validateTaskRequest empty_description"
    "validateTaskRequest (typed_request ''bogus'')"
    "req_type (typed_request ''bogus'') \<notin> set known_task_types"
    "req_type (typed_request ''bogus'') = JStr ''bogus''"
    "runningTasks (run (started all_agents None None) []) = []"
    "events (run (started all_agents None None) []) = []"
    "next_uuid (run (started all_agents None None) []) = 0"
    by code_simp+
  show ?thesis
    using h admission[of empty_description all_agents None None "[]"]
      admission[of "typed_request ''bogus''" all_agents None None "[]"]
    by simp
qed

text \<open>
  The claim of C4 fails on a request of an unknown type with a description: it passes
  the validation and gets a task in \<open>runningTasks\<close>. And the rejected submission of a
  request with an empty description does emit a terminal event for the id drawn for it.
\<close>

theorem unknown_type_admitted:
  "JStr ''bogus'' \<notin> set known_task_types \<and>
   validateTaskRequest (typed_request ''bogus'') \<and>
   status_of unknown_type_submitted 0 = Some ''pending'' \<and>
   status_runningTasks unknown_type_submitted = 1 \<and>
   \<not> validateTaskRequest empty_description \<and>
   events empty_description_submitted = [TaskFailed 0 InvalidTaskRequest]"
  by code_simp

section \<open>The three workflows that are not defined\<close>

lemma start_proc_undefined_workflow:
  assumes "undefined_workflow (req_type r) = Some w"
  shows "pc (fst (start_proc c r)) = AwaitWorkflow (Inl (NotAFunction w))"
    and "w \<notin> set coordinator_methods"
  using assms
  by (auto simp: start_proc_def executeTaskWorkflow_def new_task_def thrown_def
      undefined_workflow_def call_method_undefined coordinator_methods_def
      split: if_splits)

lemma entry_inv_undefined_workflow:
  assumes "entry_inv p" "undefined_workflow (task_type (task p)) = Some w"
  shows "status (task p) = ''pending'' \<and> pc p = AwaitWorkflow (Inl (NotAFunction w))
         \<or> status (task p) = ''failed'' \<and> pc p = Finished"
proof (cases "pc p")
  case (AwaitWorkflow r)
  with assms show ?thesis
    by (cases r) (auto simp: entry_inv_def)
qed (use assms in \<open>auto simp: entry_inv_def pending_below_def undefined_workflow_def\<close>)

lemma resume_settles:
  assumes "map_of (runningTasks c) tid = Some p" "pc p = AwaitWorkflow (Inl e)"
  shows "status_of (resume tid env c) tid = Some ''failed''"
    and "events (resume tid env c) = events c @ [TaskFailed (task_id (task p)) e]"
  using assms
  by (simp_all add: resume_def run_on_def status_of_def executeTask_continue_def
      mark_failed_def update_conv')

lemma resume_finished:
  assumes "map_of (runningTasks c) tid = Some p" "pc p = Finished"
  shows "resume tid env c = c"
  using assms by (simp add: resume_def)

text \<open>
  C3. A task of type \<open>review_code\<close>, \<open>optimize_performance\<close> or \<open>deploy_application\<close> always
  fails. In every run of an initialized coordinator: a submission of such a request that
  passes the validation is suspended with the TypeError of calling a method the class
  does not define, and one that does not pass is rejected with its \<open>taskFailed\<close> event;
  and a task of such a type in the running set is never \<open>completed\<close>, and is \<open>failed\<close>
  as soon as its call of \<open>executeTask\<close> runs on.
\<close>

theorem undefined_workflows_fail:
  assumes "ty = ''review_code'' \<or> ty = ''optimize_performance'' \<or> ty = ''deploy_application''"
  shows "(req_type r = JStr ty \<and> validateTaskRequest r \<longrightarrow>
            (\<exists>w. w \<notin> set coordinator_methods \<and>
               pc_of (step (run (started ok m t) acts) (Submit r))
                 (next_uuid (run (started ok m t) acts))
                 = Some (AwaitWorkflow (Inl (NotAFunction w))))) \<and>
         (req_type r = JStr ty \<and> \<not> validateTaskRequest r \<longrightarrow>
            events (step (run (started ok m t) acts) (Submit r))
              = events (run (started ok m t) acts)
                @ [TaskFailed (next_uuid (run (started ok m t) acts)) InvalidTaskRequest]) \<and>
         (map_of (runningTasks (run (started ok m t) acts)) tid = Some p \<and>
          task_type (task p) = JStr ty \<longrightarrow>
            status (task p) \<noteq> ''completed'' \<and>
            status_of (step (run (started ok m t) acts) (Resume tid env)) tid = Some ''failed'')"
proof -
  let ?s = "run (started ok m t) acts"
  have inv: "coord_inv ?s" by (rule inv_reachable)
  from assms obtain w where w: "undefined_workflow (JStr ty) = Some w"
    by (auto simp: undefined_workflow_def)
  have "\<exists>w. w \<notin> set coordinator_methods \<and>
          pc_of (step ?s (Submit r)) (next_uuid ?s) = Some (AwaitWorkflow (Inl (NotAFunction w)))"
    if "req_type r = JStr ty" "validateTaskRequest r"
  proof -
    from that(1) w have "undefined_workflow (req_type r) = Some w" by simp
    from start_proc_undefined_workflow(1)[OF this, of ?s]
      start_proc_undefined_workflow(2)[OF this] executeTask_valid_entry[OF that(2), of ?s]
    show ?thesis by (auto simp: pc_of_def)
  qed
  moreover have "events (step ?s (Submit r))
                   = events ?s @ [TaskFailed (next_uuid ?s) InvalidTaskRequest]"
    if "\<not> validateTaskRequest r"
    using that by (simp add: executeTask_def reject_request_def)
  moreover have "status (task p) \<noteq> ''completed'' \<and>
                 status_of (step ?s (Resume tid env)) tid = Some ''failed''"
    if "map_of (runningTasks ?s) tid = Some p" "task_type (task p) = JStr ty"
  proof -
    from inv that(1) have "entry_inv p" by (auto simp: coord_inv_def)
    from entry_inv_undefined_workflow[OF this, of w] that(2) w
    consider "status (task p) = ''pending''" "pc p = AwaitWorkflow (Inl (NotAFunction w))"
      | "status (task p) = ''failed''" "pc p = Finished"
      by auto
    then show ?thesis
    proof cases
      case 1
      with resume_settles(1)[OF that(1) 1(2), of env] show ?thesis by simp
    next
      case 2
      with resume_finished[OF that(1) 2(2), of env] that(1) show ?thesis
        by (simp add: status_of_def)
    qed
  qed
  ultimately show ?thesis by blast
qed

theorem undefined_workflows_fail_witness:
  "validateTaskRequest (typed_request ''review_code'') \<and>
   pc_of review_submitted 0
     = Some (AwaitWorkflow (Inl (NotAFunction ''executeCodeReviewWorkflow''))) \<and>
   status_of review_submitted 0 = Some ''pending'' \<and>
   status_of (step review_submitted (Resume 0 (Inr JNull))) 0 = Some ''failed'' \<and>
   events (step review_submitted (Resume 0 (Inr JNull)))
     = [TaskFailed 0 (NotAFunction ''executeCodeReviewWorkflow'')]"
proof -
  have ty: "''review_code'' = ''review_code'' \<or> ''review_code'' = ''optimize_performance''
            \<or> ''review_code'' = ''deploy_application''"
    by simp
  have h: "validateTaskRequest (typed_request ''review_code'')"
    "req_type (typed_request ''review_code'') = JStr ''review_code''"
    "pc_of review_submitted 0
       = Some (AwaitWorkflow (Inl (NotAFunction ''executeCodeReviewWorkflow'')))"
    "status_of review_submitted 0 = Some ''pending''"
    "events (step review_submitted (Resume 0 (Inr JNull)))
       = [TaskFailed 0 (NotAFunction ''executeCodeReviewWorkflow'')]"
    by code_simp+
  have p: "map_of (runningTasks review_submitted) 0
             = Some (the (map_of (runningTasks review_submitted) 0))"
    "task_type (task (the (map_of (runningTasks review_submitted) 0))) = JStr ''review_code''"
    by code_simp+
  from undefined_workflows_fail[OF ty, where r = "typed_request ''review_code''"
      and ok = all_agents and m = None and t = None
      and acts = "[Submit (typed_request ''review_code'')]" and tid = 0
      and p = "the (map_of (runningTasks review_submitted) 0)" and env = "Inr JNull"] p
  have "status_of (step review_submitted (Resume 0 (Inr JNull))) 0 = Some ''failed''"
    by (simp add: review_submitted_def)
  with h show ?thesis by simp
qed

section \<open>The busy gate of an agent\<close>

lemma agents_executeTask: "agents (executeTask r c) = agents c"
  by (simp add: executeTask_def reject_request_def)

lemma agents_resume: "agents (resume tid env c) = agents c"
  by (simp add: resume_def run_on_def split: option.splits pc.splits)

text \<open>
  The gate stands in \<open>BaseAgent.executeTask\<close>: a busy agent throws the busy error and
  stays as it is, a free agent becomes busy with the task; and for the coordinator,
  \<open>executeTask\<close> on a busy registered agent changes nothing. Submitting a request and
  resuming a workflow leave every agent, and so every busy flag, as it was.
\<close>

lemma busy_gate:
  "(busy a \<longrightarrow> BaseAgent_executeTask a t = Inl (AgentBusy (name a))) \<and>
   (\<not> busy a \<longrightarrow> BaseAgent_executeTask a t = Inr (a\<lparr>busy := True, currentTask := Some t\<rparr>)) \<and>
   (busy_of c key = Some True \<longrightarrow> step c (AgentExecute key t) = c) \<and>
   agents (step c (Submit r)) = agents c \<and>
   agents (step c (Resume tid env)) = agents c"
  by (auto simp: BaseAgent_executeTask_def busy_of_def agent_execute_def agents_executeTask
      agents_resume)

text \<open>
  C6. The claim: every workflow stage invocation of an agent is gated by the agent's busy
  state, so that one agent works on one task at a time, also when two workflows need it.
  In the code the workflows call the agent's methods and not its \<open>executeTask\<close>: while the
  architect is busy with a task of its own, two workflows call it as well; neither is
  refused, both wait for it, and no event tells of a busy error.
\<close>

theorem workflows_bypass_busy_gate:
  "busy_of busy_architect ''architect'' = Some True \<and>
   pc_of busy_architect 0 = Some AwaitArchitect \<and>
   pc_of busy_architect 2 = Some AwaitArchitect \<and>
   events busy_architect = []"
  by code_simp

section \<open>The keys of the context\<close>

lemma keys_after_simps:
  "keys_after 0 h reqs = [''projectId'', ''requirements'']"
  "keys_after 1 h reqs = keys_after 0 h reqs @ (if h ''architect'' then [''architecture''] else [])"
  "keys_after 2 h reqs = keys_after 1 h reqs @
     (if truthy (js_get reqs ''database'') \<and> h ''database'' then [''database''] else [])"
  "keys_after 3 h reqs = keys_after 2 h reqs @
     (if truthy (js_get reqs ''backend'') \<and> h ''backend'' then [''backend''] else [])"
  "keys_after 4 h reqs = keys_after 3 h reqs @
     (if truthy (js_get reqs ''frontend'') \<and> h ''frontend'' then [''frontend''] else [])"
  "keys_after 5 h reqs = keys_after 4 h reqs @ (if h ''tester'' then [''testing''] else [])"
  by (simp_all add: keys_after_def create_stages_def guard_true_def)

lemma guard_true_simps:
  "guard_true h reqs (create_stages ! 0) = h ''architect''"
  "guard_true h reqs (create_stages ! 1) = (truthy (js_get reqs ''database'') \<and> h ''database'')"
  "guard_true h reqs (create_stages ! 2) = (truthy (js_get reqs ''backend'') \<and> h ''backend'')"
  "guard_true h reqs (create_stages ! 3) = (truthy (js_get reqs ''frontend'') \<and> h ''frontend'')"
  "guard_true h reqs (create_stages ! 4) = h ''tester''"
  by (simp_all add: create_stages_def guard_true_def)

lemma keys_after_set:
  "set (keys_after n h reqs) \<subseteq>
     {''projectId'', ''requirements''} \<union> fst ` set (take n create_stages)"
  by (auto simp: keys_after_def)

lemma keys_after_fresh:
  "''architecture'' \<notin> set (keys_after 0 h reqs)"
  "''database'' \<notin> set (keys_after 1 h reqs)"
  "''backend'' \<notin> set (keys_after 2 h reqs)"
  "''frontend'' \<notin> set (keys_after 3 h reqs)"
  "''testing'' \<notin> set (keys_after 4 h reqs)"
  using keys_after_set[of 0 h reqs] keys_after_set[of 1 h reqs] keys_after_set[of 2 h reqs]
    keys_after_set[of 3 h reqs] keys_after_set[of 4 h reqs]
  by (auto simp: create_stages_def)

lemma create_finish_ctx:
  "map fst (wf_context p) = keys_after 5 h (requirements (task p)) \<Longrightarrow>
   ctx_inv h (fst (create_finish p))"
  by (simp add: create_finish_def ctx_inv_def)

lemma create_step5_ctx:
  assumes "map fst (wf_context p) = keys_after 4 (has ags) (requirements (task p))"
  shows "ctx_inv (has ags) (fst (create_step5 ags p))"
proof (cases "has ags ''tester''")
  case True
  with assms show ?thesis
    by (simp add: create_step5_def ctx_inv_def at_stage_def guard_true_simps del: One_nat_def)
next
  case False
  with assms have "map fst (wf_context p) = keys_after 5 (has ags) (requirements (task p))"
    by (simp only: keys_after_simps(6) if_False append_Nil2 simp_thms)
  from create_finish_ctx[OF this] show ?thesis
    unfolding create_step5_def if_not_P[OF False] .
qed

lemma create_step4_ctx:
  assumes "map fst (wf_context p) = keys_after 3 (has ags) (requirements (task p))"
  shows "ctx_inv (has ags) (fst (create_step4 ags p))"
proof (cases "truthy (js_get (requirements (task p)) ''frontend'') \<and> has ags ''frontend''")
  case True
  with assms show ?thesis
    by (simp add: create_step4_def ctx_inv_def at_stage_def guard_true_simps del: One_nat_def)
next
  case False
  with assms have "map fst (wf_context p) = keys_after 4 (has ags) (requirements (task p))"
    by (simp only: keys_after_simps(5) if_False append_Nil2 simp_thms)
  from create_step5_ctx[OF this] show ?thesis
    unfolding create_step4_def if_not_P[OF False] .
qed

lemma create_step3_ctx:
  assumes "map fst (wf_context p) = keys_after 2 (has ags) (requirements (task p))"
  shows "ctx_inv (has ags) (fst (create_step3 ags p))"
proof (cases "truthy (js_get (requirements (task p)) ''backend'') \<and> has ags ''backend''")
  case True
  with assms show ?thesis
    by (simp add: create_step3_def ctx_inv_def at_stage_def guard_true_simps del: One_nat_def)
next
  case False
  with assms have "map fst (wf_context p) = keys_after 3 (has ags) (requirements (task p))"
    by (simp only: keys_after_simps(4) if_False append_Nil2 simp_thms)
  from create_step4_ctx[OF this] show ?thesis
    unfolding create_step3_def if_not_P[OF False] .
qed

lemma create_step2_ctx:
  assumes "map fst (wf_context p) = keys_after 1 (has ags) (requirements (task p))"
  shows "ctx_inv (has ags) (fst (create_step2 ags p))"
proof (cases "truthy (js_get (requirements (task p)) ''database'') \<and> has ags ''database''")
  case True
  with assms show ?thesis
    by (simp add: create_step2_def ctx_inv_def at_stage_def guard_true_simps del: One_nat_def)
next
  case False
  with assms have "map fst (wf_context p) = keys_after 2 (has ags) (requirements (task p))"
    by (simp only: keys_after_simps(3) if_False append_Nil2 simp_thms)
  from create_step3_ctx[OF this] show ?thesis
    unfolding create_step2_def if_not_P[OF False] .
qed

lemma create_step1_ctx:
  assumes "map fst (wf_context p) = keys_after 0 (has ags) (requirements (task p))"
  shows "ctx_inv (has ags) (fst (create_step1 ags p))"
proof (cases "has ags ''architect''")
  case True
  with assms show ?thesis
    by (simp add: create_step1_def ctx_inv_def at_stage_def guard_true_simps del: One_nat_def)
next
  case False
  with assms have "map fst (wf_context p) = keys_after 1 (has ags) (requirements (task p))"
    by (simp only: keys_after_simps(2) if_False append_Nil2 simp_thms)
  from create_step2_ctx[OF this] show ?thesis
    unfolding create_step1_def if_not_P[OF False] .
qed

lemma after_stage_ctx:
  assumes "map fst (wf_context p) = ks" "k \<notin> set ks"
    and "\<And>q. map fst (wf_context q) = ks @ [k] \<Longrightarrow> requirements (task q) = requirements (task p)
           \<Longrightarrow> ctx_inv h (fst (next q))"
  shows "ctx_inv h (fst (after_stage k n r next p))"
proof (cases r)
  case (Inl e)
  then show ?thesis by (simp add: after_stage_def thrown_def ctx_inv_def)
next
  case (Inr v)
  have "map fst (wf_context (stage_done k n v p)) = ks @ [k]"
    using assms(1,2) by (simp add: stage_done_def update_keys)
  moreover have "requirements (task (stage_done k n v p)) = requirements (task p)"
    by (simp add: stage_done_def)
  ultimately have "ctx_inv h (fst (next (stage_done k n v p)))"
    by (rule assms(3))
  with Inr show ?thesis by (simp add: after_stage_def emitting_def)
qed

lemma resume_workflow_ctx:
  assumes "entry_inv p" "ctx_inv (has ags) p"
  shows "ctx_inv (has ags) (fst (resume_workflow ags env p))"
proof (cases "pc p")
  case AwaitArchitect
  with assms(2) have a: "map fst (wf_context p) = keys_after 0 (has ags) (requirements (task p))"
    "has ags ''architect''"
    by (simp_all add: ctx_inv_def at_stage_def guard_true_simps del: One_nat_def)
  have "ctx_inv (has ags) (fst (after_stage ''architecture'' 20 (designArchitecture env)
          (create_step2 ags) p))"
    using a(2) by (intro after_stage_ctx[OF a(1) keys_after_fresh(1)] create_step2_ctx)
      (simp only: keys_after_simps(2) if_True simp_thms)
  with AwaitArchitect show ?thesis by (simp add: resume_workflow_def)
next
  case AwaitDatabase
  with assms(2) have a: "map fst (wf_context p) = keys_after 1 (has ags) (requirements (task p))"
    "truthy (js_get (requirements (task p)) ''database'') \<and> has ags ''database''"
    by (simp_all add: ctx_inv_def at_stage_def guard_true_simps del: One_nat_def)
  have "ctx_inv (has ags) (fst (after_stage ''database'' 35 designSchema (create_step3 ags) p))"
    using a(2) by (intro after_stage_ctx[OF a(1) keys_after_fresh(2)] create_step3_ctx)
      (simp only: keys_after_simps(3) if_True simp_thms)
  with AwaitDatabase show ?thesis by (simp add: resume_workflow_def)
next
  case AwaitBackend
  with assms(2) have a: "map fst (wf_context p) = keys_after 2 (has ags) (requirements (task p))"
    "truthy (js_get (requirements (task p)) ''backend'') \<and> has ags ''backend''"
    by (simp_all add: ctx_inv_def at_stage_def guard_true_simps del: One_nat_def)
  have "ctx_inv (has ags) (fst (after_stage ''backend'' 60 backend_createProject
          (create_step4 ags) p))"
    using a(2) by (intro after_stage_ctx[OF a(1) keys_after_fresh(3)] create_step4_ctx)
      (simp only: keys_after_simps(4) if_True simp_thms)
  with AwaitBackend show ?thesis by (simp add: resume_workflow_def)
next
  case AwaitFrontend
  with assms(2) have a: "map fst (wf_context p) = keys_after 3 (has ags) (requirements (task p))"
    "truthy (js_get (requirements (task p)) ''frontend'') \<and> has ags ''frontend''"
    by (simp_all add: ctx_inv_def at_stage_def guard_true_simps del: One_nat_def)
  have "ctx_inv (has ags) (fst (after_stage ''frontend'' 85
          (frontend_createProject (wf_context p) env) (create_step5 ags) p))"
    using a(2) by (intro after_stage_ctx[OF a(1) keys_after_fresh(4)] create_step5_ctx)
      (simp only: keys_after_simps(5) if_True simp_thms)
  with AwaitFrontend show ?thesis by (simp add: resume_workflow_def)
next
  case AwaitTester
  with assms(2) have a: "map fst (wf_context p) = keys_after 4 (has ags) (requirements (task p))"
    "has ags ''tester''"
    by (simp_all add: ctx_inv_def at_stage_def guard_true_simps del: One_nat_def)
  have "ctx_inv (has ags) (fst (after_stage ''testing'' 95 setupTesting create_finish p))"
    using a(2) by (intro after_stage_ctx[OF a(1) keys_after_fresh(5)] create_finish_ctx)
      (simp only: keys_after_simps(6) if_True simp_thms)
  with AwaitTester show ?thesis by (simp add: resume_workflow_def)
next
  case AwaitAnalyze
  then show ?thesis
    by (simp add: resume_workflow_def after_analyze_def thrown_def ctx_inv_def
        split: sum.splits)
next
  case (AwaitFixes analysis)
  with assms(1) have "task_type (task p) = JStr ''debug_code''"
    by (simp add: entry_inv_def pending_below_def)
  with AwaitFixes show ?thesis
    by (simp add: resume_workflow_def after_fixes_def debug_return_def thrown_def emitting_def
        ctx_inv_def generateFixes_def split: sum.splits)
next
  case (AwaitWorkflow r)
  with assms(2) show ?thesis by (simp add: resume_workflow_def)
next
  case InEmitCompleted
  with assms(2) show ?thesis by (simp add: resume_workflow_def)
next
  case Finished
  with assms(2) show ?thesis by (simp add: resume_workflow_def)
qed

lemma executeTask_continue_ctx:
  assumes "ctx_inv h p"
  shows "ctx_inv h (fst (executeTask_continue now l p))"
proof (cases "pc p")
  case (AwaitWorkflow r)
  with assms show ?thesis
    by (cases r) (simp_all add: executeTask_continue_def ctx_inv_def mark_failed_def)
next
  case InEmitCompleted
  with assms show ?thesis
    by (cases l) (simp_all add: executeTask_continue_def ctx_inv_def mark_failed_def)
qed (use assms in \<open>simp_all add: executeTask_continue_def\<close>)

lemma start_proc_ctx: "ctx_inv (has (agents c)) (fst (start_proc c r))"
proof (cases "req_type r = JStr ''create_project''")
  case True
  let ?p = "\<lparr> task = new_task (next_uuid c) (clock c) r, wf_context = [], pc = Finished \<rparr>"
  let ?q = "?p\<lparr>wf_context := [(''projectId'', JNum (int (Suc (next_uuid c)))),
                                (''requirements'', requirements (task ?p))]\<rparr>"
  have "ctx_inv (has (agents c)) (fst (create_step1 (agents c) ?q))"
    by (rule create_step1_ctx) (simp add: keys_after_simps(1) new_task_def)
  with True show ?thesis
    by (simp add: start_proc_def executeTaskWorkflow_def call_method_defined
        executeCreateProjectWorkflow_def new_task_def)
next
  case False
  then show ?thesis
    by (simp add: start_proc_def executeTaskWorkflow_def call_method_def
        executeDebugWorkflow_def thrown_def ctx_inv_def new_task_def)
qed

lemma ctx_coord_inv_update:
  assumes "ctx_coord_inv c" "ctx_inv (has (agents c)) q"
    and "runningTasks c' = AList.update tid q (runningTasks c)" "has (agents c') = has (agents c)"
  shows "ctx_coord_inv c'"
  using assms by (auto simp: ctx_coord_inv_def update_conv')

lemma ctx_coord_inv_step:
  assumes "coord_inv c" "ctx_coord_inv c"
  shows "ctx_coord_inv (step c a)"
proof -
  have h: "has (agents (step c a)) = has (agents c)"
    by (rule ext) (rule has_agents_step)
  show ?thesis
  proof (cases rule: step_cases[of c a])
    case same
    with assms(2) h show ?thesis by (simp add: ctx_coord_inv_def)
  next
    case (workflow tid env p)
    from assms workflow(1) have "entry_inv p" "ctx_inv (has (agents c)) p"
      by (auto simp: coord_inv_def ctx_coord_inv_def)
    from ctx_coord_inv_update[OF assms(2) resume_workflow_ctx[OF this] workflow(2) h]
    show ?thesis .
  next
    case (continue tid env p)
    from assms continue(1) have "ctx_inv (has (agents c)) p"
      by (auto simp: ctx_coord_inv_def)
    from ctx_coord_inv_update[OF assms(2) executeTask_continue_ctx[OF this] continue(2) h]
    show ?thesis .
  next
    case (start r)
    from ctx_coord_inv_update[OF assms(2) start_proc_ctx start(2) h] show ?thesis .
  next
    case (reject r)
    with assms(2) h coord_inv_fresh[OF assms(1)] show ?thesis
      by (simp add: ctx_coord_inv_def)
  next
    case (cleanup tid)
    with assms(2) h show ?thesis
      by (auto simp: ctx_coord_inv_def delete_conv')
  qed
qed

lemma ctx_coord_inv_run:
  "coord_inv c \<Longrightarrow> ctx_coord_inv c \<Longrightarrow> ctx_coord_inv (run c acts)"
  unfolding run_def
  by (induction acts arbitrary: c) (simp_all add: coord_inv_step ctx_coord_inv_step)

lemma ctx_coord_inv_reachable: "ctx_coord_inv (run (started ok m t) acts)"
  by (rule ctx_coord_inv_run) (simp_all add: inv_started ctx_coord_inv_def started_fields)

lemma has_update: "has (AList.update k v ags) k' = (k' = k \<or> has ags k')"
  by (simp add: has_def update_conv')

lemma has_register_agents:
  "has (fold (register_agent ok) cfgs ags) k = (has ags k \<or> k \<in> fst ` set cfgs \<and> ok k)"
  by (induction cfgs arbitrary: ags)
     (auto simp: register_agent_def has_update split: prod.splits)

lemma has_started:
  "has (agents (started ok m t)) k = (k \<in> fst ` set agentClasses \<and> ok k)"
  by (simp add: started_def initialize_def initializeAgents_def constructor_def
      has_register_agents) (simp add: has_def)

text \<open>
  C10, as the code has it. The claim: at completion the keys of the context are exactly
  the keys of the stages whose guards were true. In the code the context starts with the
  keys \<open>projectId\<close> and \<open>requirements\<close>. In every run of an initialized coordinator the
  context of a completed create-project task holds those two keys and then, in stage
  order, exactly the keys of the stages whose guards were true.
\<close>

theorem context_keys_at_completion:
  assumes "map_of (runningTasks (run (started ok m t) acts)) tid = Some p"
    and "task_type (task p) = JStr ''create_project''"
    and "status (task p) = ''completed''"
  shows "map fst (wf_context p) =
           [''projectId'', ''requirements''] @
           map fst (filter (guard_true (has (agents (started ok m t))) (requirements (task p)))
                      create_stages)"
proof -
  let ?s = "run (started ok m t) acts"
  have h: "has (agents ?s) = has (agents (started ok m t))"
    by (rule ext) (rule has_agents_run)
  from inv_reachable(1)[of ok m t acts] assms(1) have "entry_inv p"
    by (auto simp: coord_inv_def)
  with assms(3) have "pc p = Finished \<or> pc p = InEmitCompleted"
    by (cases "pc p") (auto simp: entry_inv_def pending_below_def split: sum.splits)
  moreover from ctx_coord_inv_reachable[of ok m t acts] assms(1) h
  have "ctx_inv (has (agents (started ok m t))) p"
    by (auto simp: ctx_coord_inv_def)
  ultimately have "map fst (wf_context p)
      = keys_after 5 (has (agents (started ok m t))) (requirements (task p))"
    using assms(2,3) by (auto simp: ctx_inv_def)
  then show ?thesis
    by (simp add: keys_after_def create_stages_def)
qed

theorem context_keys_at_completion_witness:
  "map_option (\<lambda>p. (task_type (task p), status (task p), requirements (task p)))
     (map_of (runningTasks (run (started all_agents None None) completed_run)) 0)
     = Some (JStr ''create_project'', ''completed'', JObj []) \<and>
   context_keys_of (run (started all_agents None None) completed_run) 0
     = Some ([''projectId'', ''requirements''] @ [''architecture'', ''testing''])"
proof -
  let ?s = "run (started all_agents None None) completed_run"
  have e: "map_option (\<lambda>p. (task_type (task p), status (task p), requirements (task p)))
             (map_of (runningTasks ?s) 0)
           = Some (JStr ''create_project'', ''completed'', JObj [])"
    by code_simp
  then obtain p where p: "map_of (runningTasks ?s) 0 = Some p"
    "task_type (task p) = JStr ''create_project''" "status (task p) = ''completed''"
    "requirements (task p) = JObj []"
    by auto
  have g: "map fst (filter (guard_true (has (agents (started all_agents None None))) (JObj []))
             create_stages) = [''architecture'', ''testing'']"
    by (simp add: create_stages_def guard_true_def has_started all_agents_def agentClasses_def)
  from context_keys_at_completion[OF p(1,2,3)] p(1,4) g
  have "context_keys_of ?s 0
          = Some ([''projectId'', ''requirements''] @ [''architecture'', ''testing''])"
    by (simp add: context_keys_of_def)
  with e show ?thesis by simp
qed

text \<open>
  The claim of C10 fails on every completed project, by the two keys the context is
  created with: here the stages with a true guard are \<open>architecture\<close> and \<open>testing\<close>, and
  the context has four keys.
\<close>

theorem context_has_two_more_keys:
  "status_of task_completed 0 = Some ''completed'' \<and>
   map fst (filter (guard_true (has (agents (started all_agents None None))) (JObj []))
              create_stages)
     = [''architecture'', ''testing''] \<and>
   context_keys_of task_completed 0
     = Some [''projectId'', ''requirements'', ''architecture'', ''testing'']"
proof -
  have "status_of task_completed 0 = Some ''completed''"
    "context_keys_of task_completed 0
       = Some [''projectId'', ''requirements'', ''architecture'', ''testing'']"
    by code_simp+
  moreover have "map fst (filter (guard_true (has (agents (started all_agents None None)))
                    (JObj [])) create_stages) = [''architecture'', ''testing'']"
    by (simp add: create_stages_def guard_true_def has_started all_agents_def agentClasses_def)
  ultimately show ?thesis by simp
qed

end
